theory Spec2Isabelle
  imports Complex_Main
begin

section \<open>Receipt field extraction: \<open>parseReceipt\<close> of \<open>server.js\<close>\<close>

text \<open>
  The development embeds the function \<open>parseReceipt\<close> (lines 66 to 111 of
  \<open>src/server.js\<close>) together with the parts of the JavaScript string and regular
  expression library it calls: \<open>split\<close>, \<open>trim\<close>, \<open>filter\<close>, \<open>test\<close>, \<open>match\<close>,
  \<open>replace\<close>, \<open>slice\<close> and \<open>parseFloat\<close>.
\<close>

subsection \<open>Strings\<close>

text \<open>
  A JavaScript string is a sequence of UTF-16 code units. A code unit is modelled as a
  natural number (every real code unit is below 65536; no definition depends on that
  bound), so that all the white space characters of ECMAScript can be named.
  \<open>js\<close> turns a literal into such a sequence.
\<close>

type_synonym jsstring = "nat list"

definition js :: "string \<Rightarrow> jsstring" where
  "js s = map of_char s"

definition is_digit :: "nat \<Rightarrow> bool" where
  "is_digit c = (48 \<le> c \<and> c \<le> 57)"

definition is_upper :: "nat \<Rightarrow> bool" where
  "is_upper c = (65 \<le> c \<and> c \<le> 90)"

definition is_lower :: "nat \<Rightarrow> bool" where
  "is_lower c = (97 \<le> c \<and> c \<le> 122)"

text \<open>The class \<open>[A-Za-z]\<close>.\<close>

definition is_alpha :: "nat \<Rightarrow> bool" where
  "is_alpha c = (is_upper c \<or> is_lower c)"

text \<open>The class \<open>\w\<close>, which is \<open>[A-Za-z0-9_]\<close>.\<close>

definition is_word :: "nat \<Rightarrow> bool" where
  "is_word c = (is_alpha c \<or> is_digit c \<or> c = 95)"

text \<open>
  The class \<open>\s\<close>, which is also what \<open>trim\<close> strips: ECMAScript WhiteSpace and
  LineTerminator (TAB, LF, VT, FF, CR, SP, NBSP, U+1680, U+2000 to U+200A, U+2028,
  U+2029, U+202F, U+205F, U+3000, U+FEFF).
\<close>

definition is_space :: "nat \<Rightarrow> bool" where
  "is_space c = ((9 \<le> c \<and> c \<le> 13) \<or> c = 32 \<or> c = 160 \<or> c = 5760
     \<or> (8192 \<le> c \<and> c \<le> 8202) \<or> c = 8232 \<or> c = 8233 \<or> c = 8239
     \<or> c = 8287 \<or> c = 12288 \<or> c = 65279)"

text \<open>
  Case folding of a regular expression with the flag \<open>i\<close> and without the flag \<open>u\<close>:
  Canonicalize maps a code unit to its upper case, but never maps a code unit of 128 or
  more to one below 128. Every pattern character of this program is ASCII, so only the
  folding of ASCII letters can make two code units meet.
\<close>

definition upcase :: "nat \<Rightarrow> nat" where
  "upcase c = (if is_lower c then c - 32 else c)"

definition lowcase :: "nat \<Rightarrow> nat" where
  "lowcase c = (if is_upper c then c + 32 else c)"

text \<open>\<open>s.trim()\<close>\<close>

definition trim :: "jsstring \<Rightarrow> jsstring" where
  "trim s = rev (dropWhile is_space (rev (dropWhile is_space s)))"

text \<open>
  \<open>text.split(/\r?\n/)\<close>: a separator is a line feed, together with a carriage return
  directly before it. The empty string splits into one empty piece.
\<close>

fun split_lines :: "jsstring \<Rightarrow> jsstring list" where
  "split_lines [] = [[]]"
| "split_lines [c] = (if c = 10 then [[], []] else [[c]])"
| "split_lines (c # d # cs) =
     (if c = 13 \<and> d = 10 then [] # split_lines cs
      else if c = 10 then [] # split_lines (d # cs)
      else (case split_lines (d # cs) of
              [] \<Rightarrow> [[c]]
            | seg # segs \<Rightarrow> (c # seg) # segs))"

subsection \<open>Regular expressions\<close>

text \<open>
  Character sets: a single character, a range \<open>a-b\<close>, the class \<open>\s\<close>, and the union
  of two sets (a bracket expression).
\<close>

datatype cset = Chr nat | Between nat nat | Space | Union cset cset

fun cset_mem :: "cset \<Rightarrow> nat \<Rightarrow> bool" where
  "cset_mem (Chr a) c = (c = a)"
| "cset_mem (Between a b) c = (a \<le> c \<and> c \<le> b)"
| "cset_mem Space c = is_space c"
| "cset_mem (Union A B) c = (cset_mem A c \<or> cset_mem B c)"

text \<open>
  A set matches a character when some member has the same canonical form. With the flag
  \<open>i\<close> that is: the character, its upper case or its lower case is a member.
\<close>

definition cset_match :: "bool \<Rightarrow> cset \<Rightarrow> nat \<Rightarrow> bool" where
  "cset_match ic A c =
     (cset_mem A c \<or> (ic \<and> (cset_mem A (upcase c) \<or> cset_mem A (lowcase c))))"

text \<open>
  The patterns of the program use: characters and bracket expressions (\<open>Atom\<close>),
  concatenation, alternation \<open>|\<close>, the greedy quantifiers \<open>?\<close> on a group and \<open>*\<close> on a
  character set (\<open>+\<close> and \<open>{2}\<close> are written with them), capturing groups, which carry
  their number, and the assertion \<open>\b\<close>.
\<close>

datatype re =
    Empty
  | Atom cset
  | Seq re re
  | Alt re re
  | Opt re
  | Star cset
  | Group nat re
  | WordB

definition Plus :: "cset \<Rightarrow> re" where
  "Plus A = Seq (Atom A) (Star A)"

fun lit :: "string \<Rightarrow> re" where
  "lit [] = Empty"
| "lit (c # cs) = Seq (Atom (Chr (of_char c))) (lit cs)"

fun alts :: "re list \<Rightarrow> re" where
  "alts [] = Empty"
| "alts [r] = r"
| "alts (r # rs) = Alt r (alts rs)"

fun ngroups :: "re \<Rightarrow> nat" where
  "ngroups (Seq r1 r2) = ngroups r1 + ngroups r2"
| "ngroups (Alt r1 r2) = ngroups r1 + ngroups r2"
| "ngroups (Opt r) = ngroups r"
| "ngroups (Group k r) = Suc (ngroups r)"
| "ngroups r = 0"

text \<open>
  A state of the matcher: the character before the current position (\<open>None\<close> at the
  start of the string), the rest of the input, and the captures made so far, the latest
  first.
\<close>

type_synonym mstate = "nat option \<times> jsstring \<times> (nat \<times> jsstring) list"

definition word_before :: "nat option \<Rightarrow> bool" where
  "word_before pv = (case pv of None \<Rightarrow> False | Some c \<Rightarrow> is_word c)"

definition word_after :: "jsstring \<Rightarrow> bool" where
  "word_after inp = (case inp of [] \<Rightarrow> False | c # _ \<Rightarrow> is_word c)"

text \<open>
  The backtracking matcher of ECMAScript, as the list of all the ways a pattern can
  match at a position, in the order in which backtracking tries them: the first state
  of the list is the match that \<open>exec\<close> reports. A greedy quantifier lists the longer
  matches first, an alternation the left alternative first.
\<close>

fun star_run :: "(nat \<Rightarrow> bool) \<Rightarrow> mstate \<Rightarrow> mstate list" where
  "star_run p (pv, [], cp) = [(pv, [], cp)]"
| "star_run p (pv, c # cs, cp) =
     (if p c then star_run p (Some c, cs, cp) else []) @ [(pv, c # cs, cp)]"

fun matches :: "bool \<Rightarrow> re \<Rightarrow> mstate \<Rightarrow> mstate list" where
  "matches ic Empty st = [st]"
| "matches ic (Atom A) (pv, inp, cp) =
     (case inp of
        [] \<Rightarrow> []
      | c # cs \<Rightarrow> if cset_match ic A c then [(Some c, cs, cp)] else [])"
| "matches ic (Seq r1 r2) st = concat (map (matches ic r2) (matches ic r1 st))"
| "matches ic (Alt r1 r2) st = matches ic r1 st @ matches ic r2 st"
| "matches ic (Opt r) st = matches ic r st @ [st]"
| "matches ic (Star A) st = star_run (cset_match ic A) st"
| "matches ic (Group k r) (pv, inp, cp) =
     map (\<lambda>(pv', inp', cp'). (pv', inp', (k, take (length inp - length inp') inp) # cp'))
       (matches ic r (pv, inp, cp))"
| "matches ic WordB (pv, inp, cp) =
     (if word_before pv \<noteq> word_after inp then [(pv, inp, cp)] else [])"

record regexp =
  pattern :: re
  ignoreCase :: bool

text \<open>
  \<open>exec\<close> of a pattern without the flags \<open>g\<close> and \<open>y\<close>: the leftmost start position
  at which the pattern matches. The whole match is capture 0. The result is the array
  \<open>m\<close> of the captures 0 to \<open>ngroups\<close>, where \<open>None\<close> is \<open>undefined\<close>; \<open>None\<close> for
  the whole result is \<open>null\<close>.
\<close>

fun exec_at :: "regexp \<Rightarrow> nat option \<Rightarrow> jsstring \<Rightarrow> (nat \<times> jsstring) list option" where
  "exec_at R pv [] =
     (case matches (ignoreCase R) (Group 0 (pattern R)) (pv, [], []) of
        [] \<Rightarrow> None
      | (_, _, cp) # _ \<Rightarrow> Some cp)"
| "exec_at R pv (c # cs) =
     (case matches (ignoreCase R) (Group 0 (pattern R)) (pv, c # cs, []) of
        [] \<Rightarrow> exec_at R (Some c) cs
      | (_, _, cp) # _ \<Rightarrow> Some cp)"

text \<open>\<open>s.match(R)\<close>\<close>

definition match :: "regexp \<Rightarrow> jsstring \<Rightarrow> jsstring option list option" where
  "match R s =
     (case exec_at R None s of
        None \<Rightarrow> None
      | Some cp \<Rightarrow> Some (map (map_of cp) [0 ..< Suc (ngroups (pattern R))]))"

text \<open>\<open>R.test(s)\<close>\<close>

definition test :: "regexp \<Rightarrow> jsstring \<Rightarrow> bool" where
  "test R s = (exec_at R None s \<noteq> None)"

subsection \<open>Numbers\<close>

text \<open>
  A JavaScript number is \<open>NaN\<close> or a value. \<open>parseFloat\<close> skips leading white space,
  reads an optional sign and the longest prefix \<open>digits\<close>, \<open>digits.digits\<close>,
  \<open>digits.\<close> or \<open>.digits\<close>, and yields \<open>NaN\<close> when there is no digit. The value kept
  here is the exact decimal value of that prefix; the program holds the IEEE double
  nearest to it, which has the same sign. Exponents and the word \<open>Infinity\<close> are left
  out: the argument in this program consists of digits and at most one period.
\<close>

datatype number = NaN | Num rat

fun digits_val :: "nat \<Rightarrow> jsstring \<Rightarrow> nat" where
  "digits_val acc [] = acc"
| "digits_val acc (d # ds) = digits_val (acc * 10 + (d - 48)) ds"

definition unsigned_decimal :: "jsstring \<Rightarrow> rat option" where
  "unsigned_decimal s =
     (let ip = takeWhile is_digit s;
          r = dropWhile is_digit s;
          fp = (case r of [] \<Rightarrow> [] | c # r' \<Rightarrow> if c = 46 then takeWhile is_digit r' else [])
      in if ip = [] \<and> fp = [] then None
         else Some (of_nat (digits_val 0 ip) + of_nat (digits_val 0 fp) / 10 ^ length fp))"

definition parseFloat :: "jsstring \<Rightarrow> number" where
  "parseFloat s =
     (case dropWhile is_space s of
        [] \<Rightarrow> NaN
      | c # cs \<Rightarrow>
          if c = 45 then (case unsigned_decimal cs of None \<Rightarrow> NaN | Some q \<Rightarrow> Num (- q))
          else if c = 43 then (case unsigned_decimal cs of None \<Rightarrow> NaN | Some q \<Rightarrow> Num q)
          else (case unsigned_decimal (c # cs) of None \<Rightarrow> NaN | Some q \<Rightarrow> Num q))"

subsection \<open>The extractor\<close>

text \<open>
  \<open>const lines = (text || "").split(/\r?\n/).map(s => s.trim()).filter(Boolean)\<close>.
  The argument is a string, the text the recognition step returns; \<open>text || ""\<close> is
  then the text itself. \<open>filter(Boolean)\<close> keeps the strings that are not empty.
\<close>

definition lines :: "jsstring \<Rightarrow> jsstring list" where
  "lines text = filter (\<lambda>s. s \<noteq> []) (map trim (split_lines text))"

text \<open>The deny list \<open>ban\<close>, with its terms in the order of the source.\<close>

definition ban_terms :: "string list" where
  "ban_terms = [''total'', ''date'', ''time'', ''invoice'', ''batch'', ''approval'',
     ''trans id'', ''customer'', ''wechat'', ''visa'', ''master'', ''sale'', ''receipt'',
     ''store'', ''cashier'', ''host'', ''mid'', ''tid'', ''batch'']"

definition ban :: regexp where
  "ban = \<lparr>pattern = alts (map lit ban_terms), ignoreCase = True\<rparr>"

text \<open>\<open>/[A-Za-z]/\<close>\<close>

definition has_letter :: regexp where
  "has_letter = \<lparr>pattern = Atom (Union (Between 65 90) (Between 97 122)), ignoreCase = False\<rparr>"

text \<open>
  The condition of the merchant loop:
  \<open>!ban.test(s) && /[A-Za-z]/.test(s) && s.length >= 3\<close>
\<close>

definition merchant_candidate :: "jsstring \<Rightarrow> bool" where
  "merchant_candidate s = (\<not> test ban s \<and> test has_letter s \<and> length s \<ge> 3)"

text \<open>
  \<open>s.replace(/[^\w\s\-\&\.\,]/g, "").slice(0, 60)\<close>: the characters that stay are
  word characters, white space, hyphen, ampersand, period and comma.
\<close>

definition merchant_char :: "nat \<Rightarrow> bool" where
  "merchant_char c = (is_word c \<or> is_space c \<or> c = 45 \<or> c = 38 \<or> c = 46 \<or> c = 44)"

definition sanitize :: "jsstring \<Rightarrow> jsstring" where
  "sanitize s = take 60 (filter merchant_char s)"

text \<open>
  The merchant loop over the lines \<open>0\<close> to \<open>Math.min(6, lines.length) - 1\<close>, which
  stops at the first candidate; \<open>"-"\<close> is the initial value.
\<close>

fun merchant_loop :: "jsstring list \<Rightarrow> jsstring" where
  "merchant_loop [] = js ''-''"
| "merchant_loop (s # ss) = (if merchant_candidate s then sanitize s else merchant_loop ss)"

definition find_merchant :: "jsstring list \<Rightarrow> jsstring" where
  "find_merchant ls = merchant_loop (take (min 6 (length ls)) ls)"

text \<open>The pieces the four amount patterns share.\<close>

definition colon_space :: cset where
  "colon_space = Union (Chr 58) Space"

definition digit :: cset where
  "digit = Between 48 57"

definition separator :: cset where
  "separator = Union (Chr 46) (Chr 44)"

text \<open>\<open>(?:SGD|HKD|CNY|USD|S\$|\$|RM)?\<close>\<close>

definition marker :: re where
  "marker = Opt (alts [lit ''SGD'', lit ''HKD'', lit ''CNY'', lit ''USD'', lit ''S$'',
     lit ''$'', lit ''RM''])"

text \<open>\<open>([0-9]+[.,][0-9]{2})\<close> as the group of number \<open>k\<close>\<close>

definition amount_token :: "nat \<Rightarrow> re" where
  "amount_token k =
     Group k (Seq (Plus digit) (Seq (Atom separator) (Seq (Atom digit) (Atom digit))))"

text \<open>\<open>/TOTAL[:\s]+(?:SGD|HKD|CNY|USD|S\$|\$|RM)?\s*([0-9]+[.,][0-9]{2})/i\<close>\<close>

definition cand_total :: regexp where
  "cand_total = \<lparr>pattern =
      Seq (lit ''TOTAL'') (Seq (Plus colon_space) (Seq marker (Seq (Star Space)
        (amount_token 1)))),
     ignoreCase = True\<rparr>"

text \<open>
  \<open>/(AMOUNT|AMT|AMOUNT DUE)[:\s]+(?:SGD|HKD|CNY|USD|S\$|\$|RM)?\s*([0-9]+[.,][0-9]{2})/i\<close>
\<close>

definition cand_amount :: regexp where
  "cand_amount = \<lparr>pattern =
      Seq (Group 1 (alts [lit ''AMOUNT'', lit ''AMT'', lit ''AMOUNT DUE'']))
        (Seq (Plus colon_space) (Seq marker (Seq (Star Space) (amount_token 2)))),
     ignoreCase = True\<rparr>"

text \<open>\<open>/(CNY|SGD|USD)\s*AMOUNT[:\s]+([0-9]+[.,][0-9]{2})/i\<close>\<close>

definition cand_code :: regexp where
  "cand_code = \<lparr>pattern =
      Seq (Group 1 (alts [lit ''CNY'', lit ''SGD'', lit ''USD'']))
        (Seq (Star Space) (Seq (lit ''AMOUNT'') (Seq (Plus colon_space) (amount_token 2)))),
     ignoreCase = True\<rparr>"

text \<open>\<open>/\b(?:S\$|\$)\s*([0-9]+[.,][0-9]{2})\b/\<close>\<close>

definition cand_dollar :: regexp where
  "cand_dollar = \<lparr>pattern =
      Seq WordB (Seq (alts [lit ''S$'', lit ''$'']) (Seq (Star Space)
        (Seq (amount_token 1) WordB))),
     ignoreCase = False\<rparr>"

definition candidates :: "regexp list" where
  "candidates = [cand_total, cand_amount, cand_code, cand_dollar]"

text \<open>The three tests of the currency: \<open>/CNY/i\<close>, \<open>/SGD|S\$/i\<close> and \<open>/\$/\<close>.\<close>

definition re_cny :: regexp where
  "re_cny = \<lparr>pattern = lit ''CNY'', ignoreCase = True\<rparr>"

definition re_sgd :: regexp where
  "re_sgd = \<lparr>pattern = Alt (lit ''SGD'') (lit ''S$''), ignoreCase = True\<rparr>"

definition re_dollar :: regexp where
  "re_dollar = \<lparr>pattern = lit ''$'', ignoreCase = False\<rparr>"

text \<open>
  The \<open>if\<close> chain that assigns \<open>currency\<close>; \<open>None\<close> is the \<open>null\<close> the variable
  keeps when no branch is taken.
\<close>

definition infer_currency :: "jsstring \<Rightarrow> jsstring option" where
  "infer_currency line =
     (if test re_cny line then Some (js ''CNY'')
      else if test re_sgd line then Some (js ''SGD'')
      else if test re_dollar line then Some (js ''SGD'')
      else None)"

text \<open>
  The inner loop \<open>for (const re of candidates)\<close>: the match of the first pattern that
  matches the line.
\<close>

fun match_candidates :: "regexp list \<Rightarrow> jsstring \<Rightarrow> jsstring option list option" where
  "match_candidates [] line = None"
| "match_candidates (R # Rs) line =
     (case match R line of
        Some m \<Rightarrow> Some m
      | None \<Rightarrow> match_candidates Rs line)"

text \<open>
  The outer loop \<open>for (const line of lines)\<close>, which returns \<open>amount\<close>, \<open>currency\<close>
  and \<open>matched\<close>. It ends at the first line with a match, since \<open>amount\<close> is then a
  number and no longer \<open>null\<close>. \<open>val.replace(",", "")\<close> drops the first comma of
  \<open>val\<close>; on an \<open>undefined\<close> capture it would throw a TypeError.
\<close>

datatype error = TypeError

fun scan :: "jsstring list \<Rightarrow> error + (number option \<times> jsstring option \<times> jsstring)" where
  "scan [] = Inr (None, None, [])"
| "scan (line # rest) =
     (case match_candidates candidates line of
        None \<Rightarrow> scan rest
      | Some m \<Rightarrow>
          (case m ! (length m - 1) of
             None \<Rightarrow> Inl TypeError
           | Some val \<Rightarrow>
               Inr (Some (parseFloat (remove1 44 val)), infer_currency line, line)))"

record receipt =
  merchant :: jsstring
  currency :: jsstring
  amount :: number
  matched :: jsstring

text \<open>
  \<open>currency || "SGD"\<close> replaces \<open>null\<close> and the empty string; \<open>amount ?? 0\<close> replaces
  \<open>null\<close> only.
\<close>

definition parseReceipt :: "jsstring \<Rightarrow> error + receipt" where
  "parseReceipt text =
     (let ls = lines text;
          mer = find_merchant ls
      in case scan ls of
           Inl e \<Rightarrow> Inl e
         | Inr (amt, cur, mline) \<Rightarrow>
             Inr \<lparr>merchant = mer,
                  currency = (case cur of
                                None \<Rightarrow> js ''SGD''
                              | Some c \<Rightarrow> if c = [] then js ''SGD'' else c),
                  amount = (case amt of None \<Rightarrow> Num 0 | Some a \<Rightarrow> a),
                  matched = mline\<rparr>)"

subsection \<open>Containment of a term in a line\<close>

text \<open>
  Two strings are equal up to the case of ASCII letters when they agree after folding,
  and a line contains a term when some piece of the line is equal to it in that sense.
  These predicates state what the tests \<open>ban.test(s)\<close>, \<open>/CNY/i.test(line)\<close> and
  \<open>/SGD|S\$/i.test(line)\<close> decide.
\<close>

definition ci_equal :: "jsstring \<Rightarrow> jsstring \<Rightarrow> bool" where
  "ci_equal u w = (map upcase u = map upcase w)"

fun contains_ci :: "jsstring \<Rightarrow> jsstring \<Rightarrow> bool" where
  "contains_ci [] w = (w = [])"
| "contains_ci (c # cs) w = (ci_equal (take (length w) (c # cs)) w \<or> contains_ci cs w)"

text \<open>
  Plain containment, with the case of letters as it stands.
\<close>

fun contains :: "jsstring \<Rightarrow> jsstring \<Rightarrow> bool" where
  "contains [] w = (w = [])"
| "contains (c # cs) w = (take (length w) (c # cs) = w \<or> contains cs w)"

subsection \<open>Regular expression objects\<close>

text \<open>
  A regular expression object has one property that changes: \<open>lastIndex\<close>. Its
  pattern and its flags are fixed when the literal is evaluated. The store holds the
  \<open>lastIndex\<close> of every object made so far, by address, and the next free address; it
  is what one invocation leaves behind for the next. An object is its pattern, the flags
  \<open>g\<close> and \<open>y\<close>, and the address of its \<open>lastIndex\<close>.
\<close>

record store =
  cell :: "nat \<Rightarrow> nat"
  fresh :: nat

record regobj =
  source :: regexp
  global :: bool
  sticky :: bool
  ref :: nat

text \<open>
  Evaluating a literal makes a new object, with \<open>lastIndex\<close> 0.
\<close>

definition alloc :: "store \<Rightarrow> nat \<times> store" where
  "alloc st = (fresh st, \<lparr>cell = (cell st)(fresh st := 0), fresh = Suc (fresh st)\<rparr>)"

definition new_regexp :: "regexp \<Rightarrow> bool \<Rightarrow> bool \<Rightarrow> store \<Rightarrow> regobj \<times> store" where
  "new_regexp R g y st =
     (case alloc st of
        (a, st') \<Rightarrow> (\<lparr>source = R, global = g, sticky = y, ref = a\<rparr>, st'))"

definition set_lastIndex :: "regobj \<Rightarrow> nat \<Rightarrow> store \<Rightarrow> store" where
  "set_lastIndex R i st = st\<lparr>cell := (cell st)(ref R := i)\<rparr>"

text \<open>
  One attempt at one position, and the search over the positions from the left; both
  give the length of the input left after the match, and the captures.
\<close>

definition match_here ::
  "regexp \<Rightarrow> nat option \<Rightarrow> jsstring \<Rightarrow> (nat \<times> (nat \<times> jsstring) list) option" where
  "match_here R pv inp =
     (case matches (ignoreCase R) (Group 0 (pattern R)) (pv, inp, []) of
        [] \<Rightarrow> None
      | (_, inp', cp) # _ \<Rightarrow> Some (length inp', cp))"

fun exec_first ::
  "regexp \<Rightarrow> nat option \<Rightarrow> jsstring \<Rightarrow> (nat \<times> (nat \<times> jsstring) list) option" where
  "exec_first R pv [] = match_here R pv []"
| "exec_first R pv (c # cs) =
     (case match_here R pv (c # cs) of
        None \<Rightarrow> exec_first R (Some c) cs
      | Some r \<Rightarrow> Some r)"

text \<open>
  The character before position \<open>i\<close> of \<open>s\<close>, for \<open>i\<close> up to the length of \<open>s\<close>.
\<close>

definition prev_at :: "jsstring \<Rightarrow> nat \<Rightarrow> nat option" where
  "prev_at s i = (if i = 0 then None else Some (s ! (i - 1)))"

text \<open>
  RegExpBuiltinExec of ECMAScript. The search starts at \<open>lastIndex\<close> when the object
  has the flag \<open>g\<close> or \<open>y\<close>, and at 0 otherwise. With one of the flags, a failure sets
  \<open>lastIndex\<close> to 0 and a match sets it to the end of the match; without them
  \<open>lastIndex\<close> is not written. With \<open>y\<close> only the start position is tried.
\<close>

definition exec_st ::
  "regobj \<Rightarrow> jsstring \<Rightarrow> store \<Rightarrow> (nat \<times> jsstring) list option \<times> store" where
  "exec_st R s st =
     (let keeps = (global R \<or> sticky R);
          li = (if keeps then cell st (ref R) else 0)
      in if length s < li then (None, if keeps then set_lastIndex R 0 st else st)
         else (case (if sticky R then match_here (source R) (prev_at s li) (drop li s)
                     else exec_first (source R) (prev_at s li) (drop li s)) of
                 None \<Rightarrow> (None, if keeps then set_lastIndex R 0 st else st)
               | Some (n, cp) \<Rightarrow>
                   (Some cp, if keeps then set_lastIndex R (length s - n) st else st)))"

text \<open>
\<open>R.test(s)\<close>
\<close>

definition test_st :: "regobj \<Rightarrow> jsstring \<Rightarrow> store \<Rightarrow> bool \<times> store" where
  "test_st R s st = (case exec_st R s st of (r, st') \<Rightarrow> (r \<noteq> None, st'))"

text \<open>
  \<open>s.match(R)\<close>. Without the flag \<open>g\<close> it is \<open>exec\<close>. With \<open>g\<close> it sets
  \<open>lastIndex\<close> to 0 and collects the text of every match, stepping over an empty
  match; that loop runs on fuel, and \<open>length s + 2\<close> rounds are enough (lemma
  \<open>match_all_enough\<close>).
\<close>

fun match_all :: "nat \<Rightarrow> regobj \<Rightarrow> jsstring \<Rightarrow> store \<Rightarrow> jsstring list \<times> store" where
  "match_all 0 R s st = ([], st)"
| "match_all (Suc n) R s st =
     (case exec_st R s st of
        (None, st1) \<Rightarrow> ([], st1)
      | (Some cp, st1) \<Rightarrow>
          (let str = (case map_of cp 0 of None \<Rightarrow> [] | Some w \<Rightarrow> w);
               st2 = (if str = [] then set_lastIndex R (Suc (cell st1 (ref R))) st1 else st1)
           in case match_all n R s st2 of (A, st3) \<Rightarrow> (str # A, st3)))"

definition match_st ::
  "regobj \<Rightarrow> jsstring \<Rightarrow> store \<Rightarrow> jsstring option list option \<times> store" where
  "match_st R s st =
     (if global R then
        (case match_all (length s + 2) R s (set_lastIndex R 0 st) of
           (A, st') \<Rightarrow> (if A = [] then None else Some (map Some A), st'))
      else
        (case exec_st R s st of
           (None, st') \<Rightarrow> (None, st')
         | (Some cp, st') \<Rightarrow>
             (Some (map (map_of cp) [0 ..< Suc (ngroups (pattern (source R)))]), st')))"

subsection \<open>The extractor with its objects\<close>

text \<open>
  The same program with every regular expression object in the store. \<open>ban\<close> is one
  object, tested on each line of the merchant loop; the four objects of \<open>candidates\<close>
  are used on every line of the scan; the literals \<open>/[A-Za-z]/\<close>, \<open>/CNY/i\<close>,
  \<open>/SGD|S\$/i\<close> and \<open>/\$/\<close> are evaluated, and so made anew, each time control
  reaches them. \<open>&&\<close> evaluates its right side only when the left side holds. The
  literals given to \<open>split\<close> and \<open>replace\<close> take an address as well; the two methods
  are the functions \<open>split_lines\<close> and \<open>sanitize\<close> on strings, and leave the
  \<open>lastIndex\<close> of their literal at 0.
\<close>

fun merchant_loop_st :: "regobj \<Rightarrow> jsstring list \<Rightarrow> store \<Rightarrow> jsstring \<times> store" where
  "merchant_loop_st b [] st = (js ''-'', st)"
| "merchant_loop_st b (s # ss) st =
     (case test_st b s st of
        (banned, st1) \<Rightarrow>
          if banned then merchant_loop_st b ss st1
          else (case new_regexp has_letter False False st1 of
                  (letter, st2) \<Rightarrow>
                    (case test_st letter s st2 of
                       (has, st3) \<Rightarrow>
                         if has \<and> length s \<ge> 3
                         then (case alloc st3 of (_, st4) \<Rightarrow> (sanitize s, st4))
                         else merchant_loop_st b ss st3)))"

definition infer_currency_st :: "jsstring \<Rightarrow> store \<Rightarrow> jsstring option \<times> store" where
  "infer_currency_st line st =
     (case new_regexp re_cny False False st of
        (r1, st1) \<Rightarrow>
          (case test_st r1 line st1 of
             (b1, st2) \<Rightarrow>
               if b1 then (Some (js ''CNY''), st2)
               else (case new_regexp re_sgd False False st2 of
                       (r2, st3) \<Rightarrow>
                         (case test_st r2 line st3 of
                            (b2, st4) \<Rightarrow>
                              if b2 then (Some (js ''SGD''), st4)
                              else (case new_regexp re_dollar False False st4 of
                                      (r3, st5) \<Rightarrow>
                                        (case test_st r3 line st5 of
                                           (b3, st6) \<Rightarrow>
                                             if b3 then (Some (js ''SGD''), st6)
                                             else (None, st6)))))))"

fun match_candidates_st ::
  "regobj list \<Rightarrow> jsstring \<Rightarrow> store \<Rightarrow> jsstring option list option \<times> store" where
  "match_candidates_st [] line st = (None, st)"
| "match_candidates_st (R # Rs) line st =
     (case match_st R line st of
        (Some m, st1) \<Rightarrow> (Some m, st1)
      | (None, st1) \<Rightarrow> match_candidates_st Rs line st1)"

fun scan_st ::
  "regobj list \<Rightarrow> jsstring list \<Rightarrow> store \<Rightarrow>
     (error + (number option \<times> jsstring option \<times> jsstring)) \<times> store" where
  "scan_st Rs [] st = (Inr (None, None, []), st)"
| "scan_st Rs (line # rest) st =
     (case match_candidates_st Rs line st of
        (None, st1) \<Rightarrow> scan_st Rs rest st1
      | (Some m, st1) \<Rightarrow>
          (case m ! (length m - 1) of
             None \<Rightarrow> (Inl TypeError, st1)
           | Some val \<Rightarrow>
               (case infer_currency_st line st1 of
                  (cur, st2) \<Rightarrow>
                    (Inr (Some (parseFloat (remove1 44 val)), cur, line), st2))))"

definition parseReceipt_st :: "jsstring \<Rightarrow> store \<Rightarrow> (error + receipt) \<times> store" where
  "parseReceipt_st text st0 =
     (case alloc st0 of
        (_, st1) \<Rightarrow>
          (let ls = lines text in
           case new_regexp ban False False st1 of
             (b, st2) \<Rightarrow>
               (case merchant_loop_st b (take (min 6 (length ls)) ls) st2 of
                  (mer, st3) \<Rightarrow>
                    (case new_regexp cand_total False False st3 of
                       (c1, st4) \<Rightarrow>
                         (case new_regexp cand_amount False False st4 of
                            (c2, st5) \<Rightarrow>
                              (case new_regexp cand_code False False st5 of
                                 (c3, st6) \<Rightarrow>
                                   (case new_regexp cand_dollar False False st6 of
                                      (c4, st7) \<Rightarrow>
                                        (case scan_st [c1, c2, c3, c4] ls st7 of
                                           (Inl e, st8) \<Rightarrow> (Inl e, st8)
                                         | (Inr (amt, cur, mline), st8) \<Rightarrow>
                                             (Inr \<lparr>merchant = mer,
                                                   currency = (case cur of
                                                       None \<Rightarrow> js ''SGD''
                                                     | Some c \<Rightarrow> if c = [] then js ''SGD'' else c),
                                                   amount = (case amt of None \<Rightarrow> Num 0 | Some a \<Rightarrow> a),
                                                   matched = mline\<rparr>, st8)))))))))"

section \<open>Properties of the matcher\<close>

lemma star_run_suffix:
  "(pv', inp', cp') \<in> set (star_run p (pv, inp, cp)) \<Longrightarrow> (\<exists>u. inp = u @ inp') \<and> cp' = cp"
proof (induction inp arbitrary: pv)
  case Nil
  then show ?case by simp
next
  case (Cons c cs)
  then show ?case by (fastforce split: if_splits)
qed

lemma matches_suffix:
  "(pv', inp', cp') \<in> set (matches ic r (pv, inp, cp)) \<Longrightarrow> \<exists>u. inp = u @ inp'"
proof (induction r arbitrary: pv inp cp pv' inp' cp')
  case Empty
  then show ?case by simp
next
  case (Atom A)
  then show ?case by (auto split: list.splits if_splits)
next
  case (Seq r1 r2)
  from Seq.prems obtain pv1 inp1 cp1 where
    a: "(pv1, inp1, cp1) \<in> set (matches ic r1 (pv, inp, cp))" and
    b: "(pv', inp', cp') \<in> set (matches ic r2 (pv1, inp1, cp1))"
    by auto
  from Seq.IH(1)[OF a] Seq.IH(2)[OF b] show ?case by auto
next
  case (Alt r1 r2)
  then show ?case by auto
next
  case (Opt r)
  then show ?case by auto
next
  case (Star A)
  then show ?case using star_run_suffix by force
next
  case (Group k r)
  then show ?case by auto
next
  case WordB
  then show ?case by (auto split: if_splits)
qed

lemma matches_length:
  "(pv', inp', cp') \<in> set (matches ic r (pv, inp, cp)) \<Longrightarrow> length inp' \<le> length inp"
  using matches_suffix by fastforce

lemma cset_match_digit: "cset_match ic digit c = is_digit c"
  by (auto simp: cset_match_def digit_def is_digit_def upcase_def lowcase_def is_lower_def is_upper_def)


lemma matches_caps_nogroup:
  "ngroups r = 0 \<Longrightarrow> (pv', inp', cp') \<in> set (matches ic r (pv, inp, cp)) \<Longrightarrow> cp' = cp"
proof (induction r arbitrary: pv inp cp pv' inp' cp')
  case (Seq r1 r2)
  from Seq.prems obtain pv1 inp1 cp1 where
    a: "(pv1, inp1, cp1) \<in> set (matches ic r1 (pv, inp, cp))" and
    b: "(pv', inp', cp') \<in> set (matches ic r2 (pv1, inp1, cp1))"
    by auto
  from Seq.prems have "ngroups r1 = 0" "ngroups r2 = 0" by simp_all
  with Seq.IH(1)[OF _ a] Seq.IH(2)[OF _ b] show ?case by simp
next
  case (Star A)
  then show ?case using star_run_suffix by force
qed (auto split: list.splits if_splits)

lemma matches_Seq_E:
  assumes "x \<in> set (matches ic (Seq a b) st)"
  obtains st1 where "st1 \<in> set (matches ic a st)" and "x \<in> set (matches ic b st1)"
  using assms by auto

lemma matches_Atom_D:
  assumes "x \<in> set (matches ic (Atom A) (pv, inp, cp))"
  shows "\<exists>c cs. inp = c # cs \<and> cset_match ic A c \<and> x = (Some c, cs, cp)"
  using assms by (auto split: list.splits if_splits)

lemma amount_token_capture:
  assumes "x \<in> set (matches ic (amount_token k) st)"
  shows "\<exists>d tok. is_digit d \<and> snd (snd x) = (k, d # tok) # snd (snd st)"
proof -
  obtain pv inp cp where st: "st = (pv, inp, cp)" by (cases st)
  define body where "body = Seq (Plus digit) (Seq (Atom separator) (Seq (Atom digit) (Atom digit)))"
  have ng: "ngroups body = 0" by (simp add: body_def Plus_def)
  from assms obtain pv1 inp1 cp1 where
    in1: "(pv1, inp1, cp1) \<in> set (matches ic body (pv, inp, cp))" and
    x: "x = (pv1, inp1, (k, take (length inp - length inp1) inp) # cp1)"
    unfolding amount_token_def body_def[symmetric] st by auto
  have cp1: "cp1 = cp" using matches_caps_nogroup[OF ng in1] .
  from in1[unfolded body_def] obtain s1 where
    ab: "s1 \<in> set (matches ic (Plus digit) (pv, inp, cp))" and
    c: "(pv1, inp1, cp1) \<in> set (matches ic (Seq (Atom separator) (Seq (Atom digit) (Atom digit))) s1)"
    by (rule matches_Seq_E)
  from ab[unfolded Plus_def] obtain s0 where
    a: "s0 \<in> set (matches ic (Atom digit) (pv, inp, cp))" and
    b: "s1 \<in> set (matches ic (Star digit) s0)"
    by (rule matches_Seq_E)
  from matches_Atom_D[OF a] obtain d cs where
    inp: "inp = d # cs" and d: "is_digit d" and s0: "s0 = (Some d, cs, cp)"
    by (auto simp: cset_match_digit)
  obtain pv2 inp2 cp2 where s1: "s1 = (pv2, inp2, cp2)" by (cases s1)
  from b have "length inp2 \<le> length cs" unfolding s0 s1 by (rule matches_length)
  moreover from c have "length inp1 \<le> length inp2" unfolding s1 by (rule matches_length)
  ultimately have "length inp1 \<le> length cs" by simp
  then have "take (length inp - length inp1) inp = d # take (length cs - length inp1) cs"
    unfolding inp by (simp add: Suc_diff_le)
  with x cp1 d st show ?thesis by auto
qed

lemma Group_whole:
  assumes "(pv', inp', cp') \<in> set (matches ic (Group 0 r) (pv, inp, []))"
  shows "\<exists>y whole. y \<in> set (matches ic r (pv, inp, [])) \<and> cp' = (0, whole) # snd (snd y)"
  using assms by force

lemma exec_at_SomeD:
  "exec_at R pv inp = Some cp \<Longrightarrow>
   \<exists>u v pv0 y whole. inp = u @ v \<and> y \<in> set (matches (ignoreCase R) (pattern R) (pv0, v, []))
      \<and> cp = (0, whole) # snd (snd y)"
proof (induction inp arbitrary: pv)
  case Nil
  then obtain pv' inp' ms where
    "matches (ignoreCase R) (Group 0 (pattern R)) (pv, [], []) = (pv', inp', cp) # ms"
    by (auto split: list.splits)
  then have "(pv', inp', cp) \<in> set (matches (ignoreCase R) (Group 0 (pattern R)) (pv, [], []))"
    by simp
  from Group_whole[OF this] show ?case by blast
next
  case (Cons c cs)
  show ?case
  proof (cases "matches (ignoreCase R) (Group 0 (pattern R)) (pv, c # cs, [])")
    case Nil
    with Cons.prems have "exec_at R (Some c) cs = Some cp" by simp
    from Cons.IH[OF this] obtain u v pv0 y whole where
      "cs = u @ v" "y \<in> set (matches (ignoreCase R) (pattern R) (pv0, v, []))"
      "cp = (0, whole) # snd (snd y)" by blast
    then have "c # cs = (c # u) @ v" by simp
    with \<open>y \<in> _\<close> \<open>cp = _\<close> show ?thesis by blast
  next
    case (Cons st ms)
    with Cons.prems obtain pv' inp' where "st = (pv', inp', cp)"
      by (cases st) auto
    with Cons have "(pv', inp', cp) \<in> set (matches (ignoreCase R) (Group 0 (pattern R)) (pv, c # cs, []))"
      by simp
    from Group_whole[OF this] obtain y whole where
      "y \<in> set (matches (ignoreCase R) (pattern R) (pv, c # cs, []))" "cp = (0, whole) # snd (snd y)"
      by blast
    moreover have "c # cs = [] @ (c # cs)" by simp
    ultimately show ?thesis by blast
  qed
qed

lemma match_SomeD:
  assumes "match R line = Some m" and "0 < ngroups (pattern R)"
  shows "\<exists>st y. y \<in> set (matches (ignoreCase R) (pattern R) st)
     \<and> m ! (length m - 1) = map_of (snd (snd y)) (ngroups (pattern R))"
proof -
  from assms(1) obtain cp where
    e: "exec_at R None line = Some cp" and
    m: "m = map (map_of cp) [0 ..< Suc (ngroups (pattern R))]"
    by (auto simp: match_def split: option.splits)
  from exec_at_SomeD[OF e] obtain st y whole where
    y: "y \<in> set (matches (ignoreCase R) (pattern R) st)" and cp: "cp = (0, whole) # snd (snd y)"
    by metis
  have "m ! (length m - 1) = map_of cp (ngroups (pattern R))"
    unfolding m by (simp add: nth_append del: upt_Suc)
  also have "\<dots> = map_of (snd (snd y)) (ngroups (pattern R))"
    using assms(2) unfolding cp by simp
  finally show ?thesis using y by blast
qed

lemma ngroups_lit [simp]: "ngroups (lit w) = 0"
  by (induction w) auto

lemma ngroups_marker [simp]: "ngroups marker = 0"
  by (simp add: marker_def)

lemma ngroups_amount_token [simp]: "ngroups (amount_token k) = 1"
  by (simp add: amount_token_def Plus_def)

lemma matches_Seq_last: "x \<in> set (matches ic (Seq a b) st) \<Longrightarrow> \<exists>st1. x \<in> set (matches ic b st1)"
  by auto

lemma matches_WordB_D: "x \<in> set (matches ic WordB st) \<Longrightarrow> x = st"
  by (cases st) (auto split: if_splits)

lemma candidate_capture:
  assumes "R \<in> set candidates" and "match R line = Some m"
  shows "\<exists>d tok. is_digit d \<and> m ! (length m - 1) = Some (d # tok)"
proof -
  from assms(1) consider "R = cand_total" | "R = cand_amount" | "R = cand_code" | "R = cand_dollar"
    by (auto simp: candidates_def)
  then show ?thesis
  proof cases
    case 1
    have ng: "ngroups (pattern R) = 1" unfolding 1 by (simp add: cand_total_def Plus_def)
    from match_SomeD[OF assms(2)] ng obtain st y where
      y: "y \<in> set (matches (ignoreCase R) (pattern R) st)" and
      m: "m ! (length m - 1) = map_of (snd (snd y)) 1" by auto
    from y obtain st1 where "y \<in> set (matches (ignoreCase R) (amount_token 1) st1)"
      unfolding 1 cand_total_def regexp.select_convs by (blast dest!: matches_Seq_last)
    from amount_token_capture[OF this] m show ?thesis by auto
  next
    case 2
    have ng: "ngroups (pattern R) = 2" unfolding 2 by (simp add: cand_amount_def Plus_def)
    from match_SomeD[OF assms(2)] ng obtain st y where
      y: "y \<in> set (matches (ignoreCase R) (pattern R) st)" and
      m: "m ! (length m - 1) = map_of (snd (snd y)) 2" by auto
    from y obtain st1 where "y \<in> set (matches (ignoreCase R) (amount_token 2) st1)"
      unfolding 2 cand_amount_def regexp.select_convs by (blast dest!: matches_Seq_last)
    from amount_token_capture[OF this] m show ?thesis by auto
  next
    case 3
    have ng: "ngroups (pattern R) = 2" unfolding 3 by (simp add: cand_code_def Plus_def)
    from match_SomeD[OF assms(2)] ng obtain st y where
      y: "y \<in> set (matches (ignoreCase R) (pattern R) st)" and
      m: "m ! (length m - 1) = map_of (snd (snd y)) 2" by auto
    from y obtain st1 where "y \<in> set (matches (ignoreCase R) (amount_token 2) st1)"
      unfolding 3 cand_code_def regexp.select_convs by (blast dest!: matches_Seq_last)
    from amount_token_capture[OF this] m show ?thesis by auto
  next
    case 4
    have ng: "ngroups (pattern R) = 1" unfolding 4 by (simp add: cand_dollar_def Plus_def)
    from match_SomeD[OF assms(2)] ng obtain st y where
      y: "y \<in> set (matches (ignoreCase R) (pattern R) st)" and
      m: "m ! (length m - 1) = map_of (snd (snd y)) 1" by auto
    from y obtain st3 where "y \<in> set (matches (ignoreCase R) (Seq (amount_token 1) WordB) st3)"
      unfolding 4 cand_dollar_def regexp.select_convs by (blast dest: matches_Seq_last)
    then obtain st1 st2 where "st2 \<in> set (matches (ignoreCase R) (amount_token 1) st1)"
      and "y \<in> set (matches (ignoreCase R) WordB st2)"
      by (blast elim: matches_Seq_E)
    then have "y \<in> set (matches (ignoreCase R) (amount_token 1) st1)"
      using matches_WordB_D by blast
    from amount_token_capture[OF this] m show ?thesis by auto
  qed
qed

section \<open>Numbers, the scan and the merchant\<close>

lemma unsigned_decimal_digit:
  assumes "is_digit d"
  shows "\<exists>q. 0 \<le> q \<and> unsigned_decimal (d # s) = Some q"
proof -
  have "takeWhile is_digit (d # s) \<noteq> []" using assms by simp
  then show ?thesis
    unfolding unsigned_decimal_def Let_def by (simp del: takeWhile.simps dropWhile.simps)
qed

lemma parseFloat_digit:
  assumes "is_digit d"
  shows "\<exists>q. 0 \<le> q \<and> parseFloat (remove1 44 (d # tok)) = Num q"
proof -
  from assms have d: "d \<noteq> 44" "d \<noteq> 45" "d \<noteq> 43" "\<not> is_space d"
    by (auto simp: is_digit_def is_space_def)
  from unsigned_decimal_digit[OF assms] obtain q where
    "0 \<le> q" "unsigned_decimal (d # remove1 44 tok) = Some q" by blast
  with d show ?thesis by (simp add: parseFloat_def)
qed

lemma match_candidates_SomeD:
  "match_candidates Rs line = Some m \<Longrightarrow> \<exists>R\<in>set Rs. match R line = Some m"
  by (induction Rs) (auto split: option.splits)

lemma match_candidates_None_iff:
  "match_candidates Rs line = None \<longleftrightarrow> (\<forall>R\<in>set Rs. match R line = None)"
  by (induction Rs) (auto split: option.splits)

lemma infer_currency_cases:
  "infer_currency line = None \<or> infer_currency line = Some (js ''CNY'')
     \<or> infer_currency line = Some (js ''SGD'')"
  by (simp add: infer_currency_def)

lemma scan_step_match:
  assumes "match_candidates candidates line = Some m"
  shows "\<exists>d tok q. is_digit d \<and> m ! (length m - 1) = Some (d # tok) \<and> 0 \<le> q
     \<and> parseFloat (remove1 44 (d # tok)) = Num q
     \<and> scan (line # rest) = Inr (Some (Num q), infer_currency line, line)"
proof -
  from match_candidates_SomeD[OF assms] obtain R where
    "R \<in> set candidates" "match R line = Some m" by blast
  from candidate_capture[OF this] obtain d tok where
    d: "is_digit d" and m: "m ! (length m - 1) = Some (d # tok)" by blast
  from parseFloat_digit[OF d] obtain q where
    q: "0 \<le> q" "parseFloat (remove1 44 (d # tok)) = Num q" by blast
  have "scan (line # rest) = Inr (Some (Num q), infer_currency line, line)"
    using assms m q by (simp del: remove1.simps)
  with d m q show ?thesis by blast
qed

lemma scan_result:
  "\<exists>a c l. scan ls = Inr (a, c, l) \<and> (a = None \<or> (\<exists>q. 0 \<le> q \<and> a = Some (Num q)))
     \<and> (c = None \<or> c = Some (js ''CNY'') \<or> c = Some (js ''SGD''))"
proof (induction ls)
  case Nil
  show ?case by simp
next
  case (Cons line rest)
  show ?case
  proof (cases "match_candidates candidates line")
    case None
    then have "scan (line # rest) = scan rest" by simp
    with Cons.IH show ?thesis by simp
  next
    case (Some m)
    from scan_step_match[OF Some, of rest] infer_currency_cases[of line]
    show ?thesis by auto
  qed
qed

lemma has_letter_D:
  assumes "test has_letter s"
  shows "\<exists>c\<in>set s. is_alpha c"
proof -
  from assms obtain cp where "exec_at has_letter None s = Some cp"
    by (auto simp: test_def)
  from exec_at_SomeD[OF this] obtain u v pv0 y where
    s: "s = u @ v" and
    y: "y \<in> set (matches False (Atom (Union (Between 65 90) (Between 97 122))) (pv0, v, []))"
    by (auto simp: has_letter_def simp del: matches.simps)
  from matches_Atom_D[OF y] obtain c cs where
    "v = c # cs" "cset_match False (Union (Between 65 90) (Between 97 122)) c" by blast
  then have "c \<in> set s" "is_alpha c"
    using s by (auto simp: cset_match_def is_alpha_def is_upper_def is_lower_def)
  then show ?thesis by blast
qed

lemma is_alpha_merchant_char: "is_alpha c \<Longrightarrow> merchant_char c"
  by (simp add: merchant_char_def is_word_def)

lemma sanitize_length:
  assumes "merchant_candidate s"
  shows "1 \<le> length (sanitize s) \<and> length (sanitize s) \<le> 60"
proof -
  from assms have "test has_letter s" by (simp add: merchant_candidate_def)
  from has_letter_D[OF this] obtain c where "c \<in> set s" "merchant_char c"
    using is_alpha_merchant_char by blast
  then have "filter merchant_char s \<noteq> []" by (auto simp: filter_empty_conv)
  then have "1 \<le> length (filter merchant_char s)"
    by (cases "filter merchant_char s") simp_all
  then show ?thesis unfolding sanitize_def by simp
qed

lemma sanitize_chars: "c \<in> set (sanitize s) \<Longrightarrow> merchant_char c"
  unfolding sanitize_def by (auto dest: in_set_takeD)

lemma js_dash: "js ''-'' = [45]"
  by (simp add: js_def)

lemma merchant_loop_cases:
  "merchant_loop ls = js ''-'' \<or> (\<exists>s\<in>set ls. merchant_candidate s \<and> merchant_loop ls = sanitize s)"
  by (induction ls) auto

lemma find_merchant_length:
  "1 \<le> length (find_merchant ls) \<and> length (find_merchant ls) \<le> 60"
  using merchant_loop_cases[of "take (min 6 (length ls)) ls"] sanitize_length
  unfolding find_merchant_def by (auto simp: js_dash)

lemma merchant_char_dash: "merchant_char 45"
  by (simp add: merchant_char_def)

lemma find_merchant_chars:
  assumes "c \<in> set (find_merchant ls)"
  shows "merchant_char c"
proof -
  from merchant_loop_cases[of "take (min 6 (length ls)) ls"]
  consider "find_merchant ls = [45]" | s where "find_merchant ls = sanitize s"
    unfolding find_merchant_def js_dash by blast
  then show ?thesis
  proof cases
    case 1
    with assms show ?thesis by (simp add: merchant_char_dash)
  next
    case 2
    with assms show ?thesis by (simp add: sanitize_chars)
  qed
qed


section \<open>What the tests decide\<close>

lemma cset_match_Chr_ci: "cset_match True (Chr a) c \<longleftrightarrow> upcase c = upcase a"
  unfolding cset_match_def upcase_def lowcase_def is_lower_def is_upper_def
  by (simp; arith)

lemma cset_match_Chr_cs: "cset_match False (Chr a) c \<longleftrightarrow> c = a"
  by (simp add: cset_match_def)

lemma matches_lit_ci:
  "matches True (lit w) (pv, inp, cp) \<noteq> [] \<longleftrightarrow> ci_equal (take (length w) inp) (js w)"
proof (induction w arbitrary: pv inp)
  case Nil
  show ?case by (simp add: ci_equal_def js_def)
next
  case (Cons a w)
  show ?case
  proof (cases inp)
    case Nil
    then show ?thesis by (simp add: ci_equal_def js_def)
  next
    case (Cons x xs)
    show ?thesis
    proof (cases "cset_match True (Chr (of_char a)) x")
      case True
      then have "matches True (lit (a # w)) (pv, inp, cp) = matches True (lit w) (Some x, xs, cp)"
        unfolding Cons by simp
      moreover from True have "upcase x = upcase (of_char a)" by (simp add: cset_match_Chr_ci)
      ultimately show ?thesis
        using Cons.IH[of "Some x" xs] unfolding Cons by (simp add: ci_equal_def js_def)
    next
      case False
      then have "matches True (lit (a # w)) (pv, inp, cp) = []"
        unfolding Cons by simp
      moreover from False have "upcase x \<noteq> upcase (of_char a)" by (simp add: cset_match_Chr_ci)
      ultimately show ?thesis unfolding Cons by (simp add: ci_equal_def js_def)
    qed
  qed
qed

lemma matches_Group_empty: "matches ic (Group k r) st = [] \<longleftrightarrow> matches ic r st = []"
  by (cases st) simp

lemma exec_at_iff:
  assumes "\<And>pv v. (matches (ignoreCase R) (pattern R) (pv, v, []) \<noteq> []) = Q v"
  shows "exec_at R pv inp \<noteq> None \<longleftrightarrow> (\<exists>u v. inp = u @ v \<and> Q v)"
proof (induction inp arbitrary: pv)
  case Nil
  have "exec_at R pv [] \<noteq> None \<longleftrightarrow> matches (ignoreCase R) (Group 0 (pattern R)) (pv, [], []) \<noteq> []"
    by (auto split: list.splits)
  also have "\<dots> \<longleftrightarrow> Q []"
    using assms[of pv "[]"] by (simp only: matches_Group_empty)
  finally show ?case by simp
next
  case (Cons c cs)
  have ex: "(\<exists>u v. c # cs = u @ v \<and> Q v) \<longleftrightarrow> Q (c # cs) \<or> (\<exists>u v. cs = u @ v \<and> Q v)"
    by (auto simp: Cons_eq_append_conv)
  show ?case
  proof (cases "matches (ignoreCase R) (Group 0 (pattern R)) (pv, c # cs, [])")
    case Nil
    then have "matches (ignoreCase R) (pattern R) (pv, c # cs, []) = []"
      by (simp only: matches_Group_empty)
    then have "\<not> Q (c # cs)" using assms[of pv "c # cs"] by simp
    moreover from Nil have "exec_at R pv (c # cs) = exec_at R (Some c) cs" by simp
    ultimately show ?thesis using Cons.IH ex by simp
  next
    case (Cons st ms)
    then have "matches (ignoreCase R) (pattern R) (pv, c # cs, []) \<noteq> []"
      using matches_Group_empty[of "ignoreCase R" 0 "pattern R" "(pv, c # cs, [])"] by simp
    then have "Q (c # cs)" using assms[of pv "c # cs"] by simp
    moreover from Cons have "exec_at R pv (c # cs) \<noteq> None" by (auto split: prod.splits)
    ultimately show ?thesis using ex by simp
  qed
qed

lemma contains_ci_iff:
  "contains_ci s w \<longleftrightarrow> (\<exists>u v. s = u @ v \<and> ci_equal (take (length w) v) w)"
proof (induction s)
  case Nil
  show ?case by (auto simp: ci_equal_def)
next
  case (Cons c cs)
  have "(\<exists>u v. c # cs = u @ v \<and> ci_equal (take (length w) v) w) \<longleftrightarrow>
      ci_equal (take (length w) (c # cs)) w \<or> (\<exists>u v. cs = u @ v \<and> ci_equal (take (length w) v) w)"
    by (auto simp: Cons_eq_append_conv)
  with Cons.IH show ?case by simp
qed

lemma ci_equal_length: "ci_equal u w \<Longrightarrow> length u = length w"
  unfolding ci_equal_def by (rule map_eq_imp_length_eq)

lemma contains_ci_infix:
  "contains_ci s w \<longleftrightarrow> (\<exists>ps x ss. s = ps @ x @ ss \<and> ci_equal x w)"
proof
  assume "contains_ci s w"
  then obtain u v where "s = u @ v" "ci_equal (take (length w) v) w"
    unfolding contains_ci_iff by blast
  then have "s = u @ take (length w) v @ drop (length w) v" by simp
  with \<open>ci_equal _ w\<close> show "\<exists>ps x ss. s = ps @ x @ ss \<and> ci_equal x w" by blast
next
  assume "\<exists>ps x ss. s = ps @ x @ ss \<and> ci_equal x w"
  then obtain ps x ss where s: "s = ps @ x @ ss" and x: "ci_equal x w" by blast
  from ci_equal_length[OF x] have "take (length w) (x @ ss) = x" by simp
  with s x show "contains_ci s w" unfolding contains_ci_iff by metis
qed

lemma test_lit_ci:
  "test \<lparr>pattern = lit w, ignoreCase = True\<rparr> s \<longleftrightarrow> contains_ci s (js w)"
proof -
  have len: "length (js w) = length w" by (simp add: js_def)
  have "exec_at \<lparr>pattern = lit w, ignoreCase = True\<rparr> None s \<noteq> None \<longleftrightarrow>
      (\<exists>u v. s = u @ v \<and> ci_equal (take (length w) v) (js w))"
    by (rule exec_at_iff) (simp add: matches_lit_ci del: matches.simps)
  then show ?thesis unfolding test_def contains_ci_iff len .
qed

lemma test_re_cny: "test re_cny s \<longleftrightarrow> contains_ci s (js ''CNY'')"
  unfolding re_cny_def by (rule test_lit_ci)

lemma test_re_sgd: "test re_sgd s \<longleftrightarrow> contains_ci s (js ''SGD'') \<or> contains_ci s (js ''S$'')"
proof -
  have "exec_at re_sgd None s \<noteq> None \<longleftrightarrow>
      (\<exists>u v. s = u @ v \<and> (ci_equal (take (length ''SGD'') v) (js ''SGD'')
         \<or> ci_equal (take (length ''S$'') v) (js ''S$'')))"
    by (rule exec_at_iff) (simp add: re_sgd_def matches_lit_ci del: lit.simps)
  then show ?thesis unfolding test_def contains_ci_iff by (auto simp: js_def)
qed

lemma test_re_dollar: "test re_dollar s \<longleftrightarrow> 36 \<in> set s"
proof -
  have "exec_at re_dollar None s \<noteq> None \<longleftrightarrow> (\<exists>u v. s = u @ v \<and> (\<exists>vs. v = 36 # vs))"
    by (rule exec_at_iff) (auto simp: re_dollar_def cset_match_def split: list.splits)
  then show ?thesis unfolding test_def by (auto simp: in_set_conv_decomp)
qed

lemma matches_alts:
  "rs \<noteq> [] \<Longrightarrow> matches ic (alts rs) st \<noteq> [] \<longleftrightarrow> (\<exists>r\<in>set rs. matches ic r st \<noteq> [])"
  by (induction rs rule: alts.induct) auto

lemma test_ban: "test ban s \<longleftrightarrow> (\<exists>t\<in>set ban_terms. contains_ci s (js t))"
proof -
  have ne: "map lit ban_terms \<noteq> []" by (simp add: ban_terms_def)
  have "exec_at ban None s \<noteq> None \<longleftrightarrow>
      (\<exists>u v. s = u @ v \<and> (\<exists>t\<in>set ban_terms. ci_equal (take (length t) v) (js t)))"
    by (rule exec_at_iff) (simp add: ban_def matches_alts[OF ne] matches_lit_ci del: matches.simps)
  also have "\<dots> \<longleftrightarrow> (\<exists>t\<in>set ban_terms. contains_ci s (js t))"
    unfolding contains_ci_iff by (auto simp: js_def)
  finally show ?thesis unfolding test_def .
qed

section \<open>Evaluation and the loops\<close>

lemmas char_defs = is_lower_def is_upper_def is_digit_def is_word_def is_alpha_def is_space_def
  upcase_def lowcase_def

lemmas re_defs = cand_total_def cand_amount_def cand_code_def cand_dollar_def candidates_def
  marker_def amount_token_def Plus_def colon_space_def digit_def separator_def
  re_cny_def re_sgd_def re_dollar_def ban_def ban_terms_def has_letter_def
  cset_match_def word_before_def word_after_def match_def test_def

lemmas run_defs = parseReceipt_def lines_def trim_def find_merchant_def merchant_candidate_def
  sanitize_def merchant_char_def infer_currency_def parseFloat_def unsigned_decimal_def js_def

lemma scan_skip:
  "\<forall>l\<in>set pre. match_candidates candidates l = None \<Longrightarrow> scan (pre @ ls) = scan ls"
  by (induction pre) simp_all

lemma match_candidates_first:
  assumes "\<forall>R'\<in>set Rs1. match R' line = None" and "match R line = Some m"
  shows "match_candidates (Rs1 @ R # Rs2) line = Some m"
  using assms by (induction Rs1) simp_all

lemma parseReceipt_matched_line:
  assumes "lines text = pre @ line # post"
    and "\<forall>l\<in>set pre. match_candidates candidates l = None"
    and "match_candidates candidates line = Some m"
  shows "\<exists>val. m ! (length m - 1) = Some val \<and>
     parseReceipt text = Inr \<lparr>merchant = find_merchant (lines text),
       currency = (case infer_currency line of None \<Rightarrow> js ''SGD'' | Some c \<Rightarrow> c),
       amount = parseFloat (remove1 44 val), matched = line\<rparr>"
proof -
  from scan_step_match[OF assms(3), of post] obtain d tok q where
    m: "m ! (length m - 1) = Some (d # tok)" and
    q: "parseFloat (remove1 44 (d # tok)) = Num q" and
    s: "scan (line # post) = Inr (Some (Num q), infer_currency line, line)"
    by blast
  from scan_skip[OF assms(2), of "line # post"] s assms(1)
  have "scan (lines text) = Inr (Some (Num q), infer_currency line, line)" by simp
  then have "parseReceipt text = Inr \<lparr>merchant = find_merchant (lines text),
       currency = (case infer_currency line of None \<Rightarrow> js ''SGD'' | Some c \<Rightarrow> c),
       amount = parseFloat (remove1 44 (d # tok)), matched = line\<rparr>"
    using infer_currency_cases[of line] q
    by (auto simp: parseReceipt_def Let_def js_def)
  with m show ?thesis by blast
qed


lemma merchant_loop_none:
  "\<forall>s\<in>set ls. \<not> merchant_candidate s \<Longrightarrow> merchant_loop ls = js ''-''"
  by (induction ls) simp_all

lemma scan_none:
  assumes "\<forall>l\<in>set ls. match_candidates candidates l = None"
  shows "scan ls = Inr (None, None, [])"
  using scan_skip[OF assms, of "[]"] by simp

lemma parseReceipt_total: "\<exists>r. parseReceipt text = Inr r"
  using scan_result[of "lines text"] by (auto simp: parseReceipt_def Let_def)

section \<open>The state of the regular expression objects\<close>

text \<open>
  An object without the flags \<open>g\<close> and \<open>y\<close> neither reads nor writes the store, and
  every object of the extractor is one. An object with the flag \<open>g\<close> does read it.
\<close>

lemma exec_first_exec_at: "map_option snd (exec_first R pv s) = exec_at R pv s"
proof (induction s arbitrary: pv)
  case Nil
  show ?case by (simp add: match_here_def split: list.splits)
next
  case (Cons c cs)
  show ?case
  proof (cases "matches (ignoreCase R) (Group 0 (pattern R)) (pv, c # cs, [])")
    case Nil
    then show ?thesis using Cons.IH[of "Some c"] by (simp add: match_here_def)
  next
    case (Cons x xs)
    then show ?thesis by (simp add: match_here_def split: prod.splits)
  qed
qed

lemma exec_st_plain:
  assumes "\<not> global R" and "\<not> sticky R"
  shows "exec_st R s st = (exec_at (source R) None s, st)"
proof (cases "exec_first (source R) None s")
  case None
  with exec_first_exec_at[of "source R" None s] have "exec_at (source R) None s = None" by simp
  with None assms show ?thesis by (simp add: exec_st_def prev_at_def)
next
  case (Some r)
  obtain n cp where r: "r = (n, cp)" by (cases r)
  with Some exec_first_exec_at[of "source R" None s] have "exec_at (source R) None s = Some cp"
    by simp
  with Some r assms show ?thesis by (simp add: exec_st_def prev_at_def)
qed

lemma test_st_plain:
  "\<not> global R \<Longrightarrow> \<not> sticky R \<Longrightarrow> test_st R s st = (test (source R) s, st)"
  by (simp add: test_st_def exec_st_plain test_def)

lemma match_st_plain:
  "\<not> global R \<Longrightarrow> \<not> sticky R \<Longrightarrow> match_st R s st = (match (source R) s, st)"
  by (simp add: match_st_def exec_st_plain match_def split: option.splits)

lemma new_regexp_plain:
  "new_regexp R False False st = (r, st') \<Longrightarrow> source r = R \<and> \<not> global r \<and> \<not> sticky r"
  by (auto simp: new_regexp_def alloc_def)

lemma test_new_regexp:
  "new_regexp R False False st = (r, st') \<Longrightarrow> test_st r s st' = (test R s, st')"
  using new_regexp_plain test_st_plain by blast

lemma merchant_loop_st_plain:
  assumes "source b = ban" and "\<not> global b" and "\<not> sticky b"
  shows "fst (merchant_loop_st b ls st) = merchant_loop ls"
proof (induction ls arbitrary: st)
  case Nil
  show ?case by simp
next
  case (Cons s ss)
  obtain letter st2 where n: "new_regexp has_letter False False st = (letter, st2)"
    by (cases "new_regexp has_letter False False st")
  obtain a st4 where al: "alloc st2 = (a, st4)" by (cases "alloc st2")
  show ?case
    using assms Cons.IH n al test_new_regexp[OF n]
    by (simp add: test_st_plain merchant_candidate_def)
qed

lemma infer_currency_st_plain: "fst (infer_currency_st line st) = infer_currency line"
proof -
  obtain r1 st1 where n1: "new_regexp re_cny False False st = (r1, st1)"
    by (cases "new_regexp re_cny False False st")
  obtain r2 st3 where n2: "new_regexp re_sgd False False st1 = (r2, st3)"
    by (cases "new_regexp re_sgd False False st1")
  obtain r3 st5 where n3: "new_regexp re_dollar False False st3 = (r3, st5)"
    by (cases "new_regexp re_dollar False False st3")
  show ?thesis
    using n1 n2 n3 test_new_regexp[OF n1] test_new_regexp[OF n2] test_new_regexp[OF n3]
    by (simp add: infer_currency_st_def infer_currency_def)
qed

lemma match_candidates_st_plain:
  assumes "\<forall>R\<in>set Rs. \<not> global R \<and> \<not> sticky R"
  shows "fst (match_candidates_st Rs line st) = match_candidates (map source Rs) line"
  using assms
proof (induction Rs arbitrary: st)
  case Nil
  show ?case by simp
next
  case (Cons R Rs)
  then show ?case by (simp add: match_st_plain split: option.splits)
qed

lemma scan_st_plain:
  assumes "\<forall>R\<in>set Rs. \<not> global R \<and> \<not> sticky R" and "map source Rs = candidates"
  shows "fst (scan_st Rs ls st) = scan ls"
proof (induction ls arbitrary: st)
  case Nil
  show ?case by simp
next
  case (Cons line rest)
  obtain r st1 where m: "match_candidates_st Rs line st = (r, st1)"
    by (cases "match_candidates_st Rs line st")
  with match_candidates_st_plain[OF assms(1), of line st] assms(2)
  have r: "r = match_candidates candidates line" by simp
  show ?case
  proof (cases r)
    case None
    with m r Cons.IH show ?thesis by simp
  next
    case (Some ms)
    obtain cur st2 where c: "infer_currency_st line st1 = (cur, st2)"
      by (cases "infer_currency_st line st1")
    with infer_currency_st_plain[of line st1] have "cur = infer_currency line" by simp
    with Some m r c show ?thesis by (simp split: option.splits)
  qed
qed

lemma parseReceipt_st_plain: "fst (parseReceipt_st text st) = parseReceipt text"
proof -
  obtain a0 st1 where a: "alloc st = (a0, st1)" by (cases "alloc st")
  obtain b st2 where b: "new_regexp ban False False st1 = (b, st2)"
    by (cases "new_regexp ban False False st1")
  let ?ls = "lines text"
  obtain mer st3 where ml: "merchant_loop_st b (take (min 6 (length ?ls)) ?ls) st2 = (mer, st3)"
    by (cases "merchant_loop_st b (take (min 6 (length ?ls)) ?ls) st2")
  obtain c1 st4 where c1: "new_regexp cand_total False False st3 = (c1, st4)"
    by (cases "new_regexp cand_total False False st3")
  obtain c2 st5 where c2: "new_regexp cand_amount False False st4 = (c2, st5)"
    by (cases "new_regexp cand_amount False False st4")
  obtain c3 st6 where c3: "new_regexp cand_code False False st5 = (c3, st6)"
    by (cases "new_regexp cand_code False False st5")
  obtain c4 st7 where c4: "new_regexp cand_dollar False False st6 = (c4, st7)"
    by (cases "new_regexp cand_dollar False False st6")
  obtain res st8 where sc: "scan_st [c1, c2, c3, c4] ?ls st7 = (res, st8)"
    by (cases "scan_st [c1, c2, c3, c4] ?ls st7")
  note pb = new_regexp_plain[OF b]
  from merchant_loop_st_plain[of b "take (min 6 (length ?ls)) ?ls" st2] pb ml
  have mer: "mer = find_merchant ?ls" by (simp add: find_merchant_def)
  note p1 = new_regexp_plain[OF c1] and p2 = new_regexp_plain[OF c2]
    and p3 = new_regexp_plain[OF c3] and p4 = new_regexp_plain[OF c4]
  have "fst (scan_st [c1, c2, c3, c4] ?ls st7) = scan ?ls"
    by (rule scan_st_plain) (simp_all add: p1 p2 p3 p4 candidates_def)
  with sc have res: "res = scan ?ls" by simp
  show ?thesis
    using a b ml c1 c2 c3 c4 sc mer res
    by (simp add: parseReceipt_st_def parseReceipt_def Let_def split: sum.splits prod.splits)
qed

lemma match_here_SomeD:
  assumes "match_here R pv inp = Some (n, cp)"
  shows "n \<le> length inp \<and> map_of cp 0 = Some (take (length inp - n) inp)"
proof -
  from assms obtain pv' inp' ms where
    m: "matches (ignoreCase R) (Group 0 (pattern R)) (pv, inp, []) = (pv', inp', cp) # ms"
    and n: "n = length inp'"
    by (auto simp: match_here_def split: list.splits)
  then have in1: "(pv', inp', cp) \<in> set (matches (ignoreCase R) (Group 0 (pattern R)) (pv, inp, []))"
    by simp
  from matches_length[OF in1] n have "n \<le> length inp" by simp
  moreover from in1 n have "map_of cp 0 = Some (take (length inp - n) inp)" by auto
  ultimately show ?thesis by simp
qed

lemma exec_first_SomeD:
  "exec_first R pv inp = Some (n, cp) \<Longrightarrow>
   \<exists>u v. inp = u @ v \<and> n \<le> length v \<and> map_of cp 0 = Some (take (length v - n) v)"
proof (induction inp arbitrary: pv)
  case Nil
  then have "match_here R pv [] = Some (n, cp)" by simp
  from match_here_SomeD[OF this] show ?case by simp
next
  case (Cons c cs)
  show ?case
  proof (cases "match_here R pv (c # cs)")
    case None
    with Cons.prems have "exec_first R (Some c) cs = Some (n, cp)" by simp
    from Cons.IH[OF this] obtain u v where
      "cs = u @ v" "n \<le> length v" "map_of cp 0 = Some (take (length v - n) v)" by blast
    then have "c # cs = (c # u) @ v" by simp
    with \<open>n \<le> length v\<close> \<open>map_of cp 0 = _\<close> show ?thesis by blast
  next
    case (Some r)
    with Cons.prems have "match_here R pv (c # cs) = Some (n, cp)" by simp
    from match_here_SomeD[OF this] have
      "c # cs = [] @ (c # cs)" "n \<le> length (c # cs)"
      "map_of cp 0 = Some (take (length (c # cs) - n) (c # cs))" by simp_all
    then show ?thesis by blast
  qed
qed

lemma found_whole:
  assumes "(if y then match_here R pv inp else exec_first R pv inp) = Some (n, cp)"
  shows "\<exists>w. map_of cp 0 = Some w \<and> n \<le> length inp \<and> (w \<noteq> [] \<longrightarrow> n < length inp)"
proof (cases y)
  case True
  with assms have "match_here R pv inp = Some (n, cp)" by simp
  from match_here_SomeD[OF this] show ?thesis by auto
next
  case False
  with assms have "exec_first R pv inp = Some (n, cp)" by simp
  from exec_first_SomeD[OF this] obtain u v where
    "inp = u @ v" "n \<le> length v" "map_of cp 0 = Some (take (length v - n) v)" by blast
  then show ?thesis by auto
qed

lemma exec_st_beyond:
  assumes "global R" and "length s < cell st (ref R)"
  shows "fst (exec_st R s st) = None"
  using assms by (simp add: exec_st_def)

lemma exec_st_progress:
  assumes "global R" and "exec_st R s st = (Some cp, st1)"
  shows "\<exists>w. map_of cp 0 = Some w \<and> cell st (ref R) \<le> cell st1 (ref R)
     \<and> (w \<noteq> [] \<longrightarrow> cell st (ref R) < cell st1 (ref R))"
proof -
  let ?li = "cell st (ref R)"
  from assms have le: "?li \<le> length s"
    by (auto simp: exec_st_def Let_def split: if_splits)
  define found where "found = (if sticky R
      then match_here (source R) (prev_at s ?li) (drop ?li s)
      else exec_first (source R) (prev_at s ?li) (drop ?li s))"
  from assms(1) le have ex: "exec_st R s st =
      (case found of
         None \<Rightarrow> (None, set_lastIndex R 0 st)
       | Some (n, cp) \<Rightarrow> (Some cp, set_lastIndex R (length s - n) st))"
    unfolding found_def exec_st_def Let_def by (simp cong: if_cong option.case_cong)
  from assms(2) obtain n where
    f: "found = Some (n, cp)" and st1: "st1 = set_lastIndex R (length s - n) st"
    unfolding ex by (cases found) auto
  note f = f[unfolded found_def]
  from found_whole[OF f] obtain w where
    w: "map_of cp 0 = Some w" "n \<le> length s - ?li" "w \<noteq> [] \<longrightarrow> n < length s - ?li"
    by auto
  have "cell st1 (ref R) = length s - n" unfolding st1 by (simp add: set_lastIndex_def)
  with w le show ?thesis by auto
qed

lemma match_all_fuel:
  assumes "global R"
  shows "length s + 2 \<le> Suc k + cell st (ref R) \<Longrightarrow>
    match_all (Suc (Suc k)) R s st = match_all (Suc k) R s st"
proof (induction k arbitrary: st)
  case 0
  then have "length s < cell st (ref R)" by simp
  from exec_st_beyond[OF assms this] obtain st1 where "exec_st R s st = (None, st1)"
    by (cases "exec_st R s st") simp
  then show ?case by simp
next
  case (Suc k)
  obtain r st1 where e: "exec_st R s st = (r, st1)" by (cases "exec_st R s st")
  show ?case
  proof (cases r)
    case None
    with e show ?thesis by simp
  next
    case (Some cp)
    from exec_st_progress[OF assms e[unfolded Some]] obtain w where
      w: "map_of cp 0 = Some w" "cell st (ref R) \<le> cell st1 (ref R)"
         "w \<noteq> [] \<longrightarrow> cell st (ref R) < cell st1 (ref R)" by blast
    define st2 where
      "st2 = (if w = [] then set_lastIndex R (Suc (cell st1 (ref R))) st1 else st1)"
    have "cell st (ref R) < cell st2 (ref R)"
      using w unfolding st2_def by (auto simp: set_lastIndex_def)
    with Suc.prems have "length s + 2 \<le> Suc k + cell st2 (ref R)" by simp
    from Suc.IH[OF this]
    have "match_all (Suc (Suc k)) R s st2 = match_all (Suc k) R s st2" .
    then show ?thesis
      using e Some w unfolding st2_def
      by (simp add: Let_def del: match_all.simps(2))
        (simp add: match_all.simps(2)[of "Suc (Suc k)"] match_all.simps(2)[of "Suc k"] e Some w Let_def
           del: match_all.simps(2))
  qed
qed

lemma global_test_reads_lastIndex:
  "fst (test_st \<lparr>source = re_dollar, global = True, sticky = False, ref = 0\<rparr> (js ''$1'')
          \<lparr>cell = (\<lambda>_. 0), fresh = 1\<rparr>)
   \<noteq> fst (test_st \<lparr>source = re_dollar, global = True, sticky = False, ref = 0\<rparr> (js ''$1'')
          \<lparr>cell = (\<lambda>_. 1), fresh = 1\<rparr>)"
  by (simp add: test_st_def exec_st_def match_here_def prev_at_def set_lastIndex_def
      re_dollar_def cset_match_def js_def)

lemma match_all_enough:
  assumes "global R" and "length s + 2 \<le> n"
  shows "match_all n R s st = match_all (length s + 2) R s st"
proof -
  from assms(2) obtain d where n: "n = length s + 2 + d" by (auto simp: le_iff_add)
  have "match_all (length s + 2 + d) R s st = match_all (length s + 2) R s st"
  proof (induction d)
    case 0
    show ?case by simp
  next
    case (Suc d)
    have e1: "length s + 2 + Suc d = Suc (Suc (length s + 1 + d))" by simp
    have e2: "length s + 2 + d = Suc (length s + 1 + d)" by simp
    have "match_all (Suc (Suc (length s + 1 + d))) R s st
        = match_all (Suc (length s + 1 + d)) R s st"
      by (rule match_all_fuel[OF assms(1)]) simp
    with Suc show ?case unfolding e1 e2 by simp
  qed
  with n show ?thesis by simp
qed

section \<open>The claims\<close>

text \<open>
  C1. A token with a comma, as in the line \<open>TOTAL: 12,50\<close>, should be read with
  the comma as the decimal separator, as 12.50. The program calls
  \<open>val.replace(",", "")\<close>, which drops the comma, so that the amount is 1250. The
  same token with a period has the amount 12.50.
\<close>

theorem comma_token_amount:
  "parseReceipt (js ''TOTAL: 12,50'')
     = Inr \<lparr>merchant = js ''-'', currency = js ''SGD'', amount = Num 1250,
         matched = js ''TOTAL: 12,50''\<rparr>
   \<and> parseReceipt (js ''TOTAL: 12.50'')
     = Inr \<lparr>merchant = js ''-'', currency = js ''SGD'', amount = Num (25 / 2),
         matched = js ''TOTAL: 12.50''\<rparr>"
  by (simp add: run_defs re_defs char_defs)

text \<open>
  C2, as the specification states it: the text of three lines
  \<open>STORE NAME\<close>, \<open>DATE: 01/01/2024\<close>, \<open>TOTAL: 12.00\<close> has the merchant
  \<open>STORE NAME\<close>. It has not.
\<close>

theorem store_name_counterexample:
  "map_sum id merchant (parseReceipt (js ''STORE NAME\<newline>DATE: 01/01/2024\<newline>TOTAL: 12.00''))
     \<noteq> Inr (js ''STORE NAME'')"
  by (simp add: run_defs re_defs char_defs)

text \<open>
  C2, amended. The line \<open>STORE NAME\<close> matches the deny list, which has the term
  \<open>store\<close>, and so do the two other lines (\<open>date\<close>, \<open>total\<close>): for that text
  the merchant is \<open>-\<close> and the amount is 12.00.
\<close>

theorem store_name_receipt:
  "test ban (js ''STORE NAME'') \<and>
   parseReceipt (js ''STORE NAME\<newline>DATE: 01/01/2024\<newline>TOTAL: 12.00'')
     = Inr \<lparr>merchant = js ''-'', currency = js ''SGD'', amount = Num 12,
         matched = js ''TOTAL: 12.00''\<rparr>"
  by (simp add: run_defs re_defs char_defs)

text \<open>
  C3. The last pattern should match a line with a bare \<open>$\<close> before an amount token,
  so that the line \<open>$5.00\<close> has the amount 5.00. The pattern starts with \<open>\b\<close>, which
  does not hold between the start of the line and \<open>$\<close>, since neither side is a word
  character: the line matches no pattern and the amount is 0. With \<open>S\<close> before the
  \<open>$\<close> the pattern matches.
\<close>

theorem bare_dollar_line:
  "match cand_dollar (js ''$5.00'') = None \<and>
   match cand_dollar (js ''S$5.00'') = Some [Some (js ''S$5.00''), Some (js ''5.00'')] \<and>
   parseReceipt (js ''$5.00'')
     = Inr \<lparr>merchant = js ''-'', currency = js ''SGD'', amount = Num 0, matched = []\<rparr>"
  by (simp add: run_defs re_defs char_defs)

text \<open>
  C4. Amount and currency detection scans the lines from the top and tries the four
  patterns in their order on each line. When no pattern matches a line of \<open>pre\<close>,
  and \<open>R\<close> is the first pattern of \<open>candidates\<close> that matches the next line, then
  amount, currency and matched line come from that match alone: the amount is parsed from
  the last capture of the match, the currency is inferred from that line, and the lines
  \<open>post\<close> after it have no influence.
\<close>

theorem first_match_wins:
  assumes "lines text = pre @ line # post"
    and "\<forall>l\<in>set pre. \<forall>R'\<in>set candidates. match R' l = None"
    and "candidates = Rs1 @ R # Rs2"
    and "\<forall>R'\<in>set Rs1. match R' line = None"
    and "match R line = Some m"
  shows "\<exists>val. m ! (length m - 1) = Some val \<and>
     parseReceipt text = Inr \<lparr>merchant = find_merchant (lines text),
       currency = (case infer_currency line of None \<Rightarrow> js ''SGD'' | Some c \<Rightarrow> c),
       amount = parseFloat (remove1 44 val), matched = line\<rparr>"
proof -
  from assms(2) have pre: "\<forall>l\<in>set pre. match_candidates candidates l = None"
    by (simp add: match_candidates_None_iff)
  from match_candidates_first[OF assms(4,5), of Rs2] assms(3)
  have "match_candidates candidates line = Some m" by simp
  from parseReceipt_matched_line[OF assms(1) pre this] show ?thesis .
qed

theorem first_match_wins_witness:
  "lines (js ''Shop\<newline>AMT: 3.50\<newline>TOTAL: 9.00'')
     = [js ''Shop''] @ js ''AMT: 3.50'' # [js ''TOTAL: 9.00'']
   \<and> match cand_total (js ''Shop'') = None \<and> match cand_amount (js ''Shop'') = None
   \<and> match cand_code (js ''Shop'') = None \<and> match cand_dollar (js ''Shop'') = None
   \<and> candidates = [cand_total] @ cand_amount # [cand_code, cand_dollar]
   \<and> match cand_total (js ''AMT: 3.50'') = None
   \<and> match cand_amount (js ''AMT: 3.50'')
       = Some [Some (js ''AMT: 3.50''), Some (js ''AMT''), Some (js ''3.50'')]
   \<and> parseReceipt (js ''Shop\<newline>AMT: 3.50\<newline>TOTAL: 9.00'')
       = Inr \<lparr>merchant = js ''Shop'', currency = js ''SGD'', amount = Num (7 / 2),
           matched = js ''AMT: 3.50''\<rparr>"
proof -
  let ?T = "js ''Shop\<newline>AMT: 3.50\<newline>TOTAL: 9.00''"
  have h1: "lines ?T = [js ''Shop''] @ js ''AMT: 3.50'' # [js ''TOTAL: 9.00'']"
    by (simp add: lines_def trim_def js_def is_space_def)
  have s1: "match cand_total (js ''Shop'') = None" by (simp add: re_defs char_defs js_def)
  have s2: "match cand_amount (js ''Shop'') = None" by (simp add: re_defs char_defs js_def)
  have s3: "match cand_code (js ''Shop'') = None" by (simp add: re_defs char_defs js_def)
  have s4: "match cand_dollar (js ''Shop'') = None" by (simp add: re_defs char_defs js_def)
  have h2: "\<forall>l\<in>set [js ''Shop'']. \<forall>R'\<in>set candidates. match R' l = None"
    using s1 s2 s3 s4 by (simp add: candidates_def)
  have h3: "candidates = [cand_total] @ cand_amount # [cand_code, cand_dollar]"
    by (simp add: candidates_def)
  have t1: "match cand_total (js ''AMT: 3.50'') = None" by (simp add: re_defs char_defs js_def)
  have h4: "\<forall>R'\<in>set [cand_total]. match R' (js ''AMT: 3.50'') = None"
    using t1 by simp
  have h5: "match cand_amount (js ''AMT: 3.50'')
       = Some [Some (js ''AMT: 3.50''), Some (js ''AMT''), Some (js ''3.50'')]"
    by (simp add: re_defs char_defs js_def)
  have m: "find_merchant (lines ?T) = js ''Shop''"
    unfolding h1 by (simp add: run_defs re_defs char_defs)
  have c: "infer_currency (js ''AMT: 3.50'') = None"
    by (simp add: run_defs re_defs char_defs)
  have p: "parseFloat (remove1 44 (js ''3.50'')) = Num (7 / 2)"
    by (simp add: run_defs char_defs)
  from first_match_wins[OF h1 h2 h3 h4 h5]
  have "parseReceipt ?T = Inr \<lparr>merchant = js ''Shop'', currency = js ''SGD'', amount = Num (7 / 2),
           matched = js ''AMT: 3.50''\<rparr>"
    by (simp add: m c p)
  with h1 s1 s2 s3 s4 h3 t1 h5 show ?thesis by blast
qed

text \<open>
  C5, as the specification states it, with plain containment: a line that contains CNY
  has the currency \<open>CNY\<close>, and otherwise a line that contains SGD has \<open>SGD\<close>. The
  line \<open>TOTAL: SGD 5.00 cny\<close> does not contain \<open>CNY\<close> and does contain \<open>SGD\<close>,
  and its currency is \<open>CNY\<close>: the test of the program is \<open>/CNY/i\<close>, which ignores the
  case of letters.
\<close>

theorem currency_case_counterexample:
  "\<not> contains (js ''TOTAL: SGD 5.00 cny'') (js ''CNY'')
   \<and> contains (js ''TOTAL: SGD 5.00 cny'') (js ''SGD'')
   \<and> parseReceipt (js ''TOTAL: SGD 5.00 cny'')
       = Inr \<lparr>merchant = js ''-'', currency = js ''CNY'', amount = Num 5,
           matched = js ''TOTAL: SGD 5.00 cny''\<rparr>"
  by (simp add: run_defs re_defs char_defs)

text \<open>
  C5, amended. On the first line with a match the currency is chosen in this order,
  where the tests for CNY, SGD and \<open>S$\<close> ignore the case of letters, as the flag \<open>i\<close>
  of the program does: \<open>CNY\<close> when the line contains CNY in any case of its letters;
  otherwise \<open>SGD\<close> when it contains SGD or \<open>S$\<close> in any case; otherwise \<open>SGD\<close>
  when it contains \<open>$\<close> (the code point 36); otherwise the default \<open>SGD\<close> of the
  record. A line with the capital letters \<open>CNY\<close> in it has the currency \<open>CNY\<close> in
  particular. The line \<open>AMOUNT DUE: $9.99\<close> has the amount 9.99 and the currency
  \<open>SGD\<close>.
\<close>

theorem currency_inference:
  assumes "lines text = pre @ line # post"
    and "\<forall>l\<in>set pre. match_candidates candidates l = None"
    and "match_candidates candidates line \<noteq> None"
  shows "(\<exists>r. parseReceipt text = Inr r \<and> matched r = line \<and>
      currency r =
        (if contains_ci line (js ''CNY'') then js ''CNY''
         else if contains_ci line (js ''SGD'') \<or> contains_ci line (js ''S$'') then js ''SGD''
         else if 36 \<in> set line then js ''SGD''
         else js ''SGD'') \<and>
      ((\<exists>ps ss. line = ps @ js ''CNY'' @ ss) \<longrightarrow> currency r = js ''CNY''))
    \<and> parseReceipt (js ''AMOUNT DUE: $9.99'')
        = Inr \<lparr>merchant = js ''AMOUNT DUE 9.99'', currency = js ''SGD'',
            amount = Num (999 / 100), matched = js ''AMOUNT DUE: $9.99''\<rparr>"
proof
  from assms(3) obtain m where "match_candidates candidates line = Some m" by blast
  from parseReceipt_matched_line[OF assms(1,2) this] obtain val where
    p: "parseReceipt text = Inr \<lparr>merchant = find_merchant (lines text),
       currency = (case infer_currency line of None \<Rightarrow> js ''SGD'' | Some c \<Rightarrow> c),
       amount = parseFloat (remove1 44 val), matched = line\<rparr>" by blast
  have c: "(case infer_currency line of None \<Rightarrow> js ''SGD'' | Some c \<Rightarrow> c) =
        (if contains_ci line (js ''CNY'') then js ''CNY''
         else if contains_ci line (js ''SGD'') \<or> contains_ci line (js ''S$'') then js ''SGD''
         else if 36 \<in> set line then js ''SGD''
         else js ''SGD'')"
    by (simp add: infer_currency_def test_re_cny test_re_sgd test_re_dollar)
  have "contains_ci line (js ''CNY'')" if "\<exists>ps ss. line = ps @ js ''CNY'' @ ss"
    using that unfolding contains_ci_infix ci_equal_def by blast
  with p c show "\<exists>r. parseReceipt text = Inr r \<and> matched r = line \<and>
      currency r =
        (if contains_ci line (js ''CNY'') then js ''CNY''
         else if contains_ci line (js ''SGD'') \<or> contains_ci line (js ''S$'') then js ''SGD''
         else if 36 \<in> set line then js ''SGD''
         else js ''SGD'') \<and>
      ((\<exists>ps ss. line = ps @ js ''CNY'' @ ss) \<longrightarrow> currency r = js ''CNY'')"
    by simp
next
  show "parseReceipt (js ''AMOUNT DUE: $9.99'')
        = Inr \<lparr>merchant = js ''AMOUNT DUE 9.99'', currency = js ''SGD'',
            amount = Num (999 / 100), matched = js ''AMOUNT DUE: $9.99''\<rparr>"
    by (simp add: run_defs re_defs char_defs)
qed

theorem currency_inference_witness:
  "lines (js ''Cafe\<newline>Amount: cny 8.00\<newline>TOTAL: SGD 1.00'')
     = [js ''Cafe''] @ js ''Amount: cny 8.00'' # [js ''TOTAL: SGD 1.00'']
   \<and> match_candidates candidates (js ''Cafe'') = None
   \<and> match_candidates candidates (js ''Amount: cny 8.00'')
       = Some [Some (js ''Amount: cny 8.00''), Some (js ''Amount''), Some (js ''8.00'')]
   \<and> contains_ci (js ''Amount: cny 8.00'') (js ''CNY'')
   \<and> map_sum id currency (parseReceipt (js ''Cafe\<newline>Amount: cny 8.00\<newline>TOTAL: SGD 1.00''))
       = Inr (js ''CNY'')"
proof -
  let ?T = "js ''Cafe\<newline>Amount: cny 8.00\<newline>TOTAL: SGD 1.00''"
  let ?L = "js ''Amount: cny 8.00''"
  have h1: "lines ?T = [js ''Cafe''] @ ?L # [js ''TOTAL: SGD 1.00'']"
    by (simp add: lines_def trim_def js_def is_space_def)
  have s: "match_candidates candidates (js ''Cafe'') = None"
    by (simp add: re_defs char_defs js_def)
  then have h2: "\<forall>l\<in>set [js ''Cafe'']. match_candidates candidates l = None" by simp
  have m: "match_candidates candidates ?L
       = Some [Some ?L, Some (js ''Amount''), Some (js ''8.00'')]"
    by (simp add: re_defs char_defs js_def)
  then have h3: "match_candidates candidates ?L \<noteq> None" by simp
  have c: "contains_ci ?L (js ''CNY'')"
    by (simp add: js_def ci_equal_def char_defs)
  from currency_inference[OF h1 h2 h3] c
  have "map_sum id currency (parseReceipt ?T) = Inr (js ''CNY'')" by auto
  with h1 s m c show ?thesis by blast
qed

text \<open>
  C6. The extractor never fails: it returns a record for every text. For the empty
  text, and for every text in which none of the first six lines is a merchant candidate
  and no pattern matches any line, the record is the one of the defaults: merchant
  \<open>-\<close>, currency \<open>SGD\<close>, amount 0.
\<close>

theorem defaults_without_signal:
  "parseReceipt (js '''')
     = Inr \<lparr>merchant = js ''-'', currency = js ''SGD'', amount = Num 0, matched = []\<rparr>
   \<and> (\<forall>text.
        (\<forall>s\<in>set (take 6 (lines text)). \<not> merchant_candidate s)
        \<and> (\<forall>l\<in>set (lines text). \<forall>R\<in>set candidates. match R l = None)
        \<longrightarrow> parseReceipt text
          = Inr \<lparr>merchant = js ''-'', currency = js ''SGD'', amount = Num 0, matched = []\<rparr>)
   \<and> (\<forall>text. \<exists>r. parseReceipt text = Inr r)"
proof (intro conjI allI impI)
  show "parseReceipt (js '''')
     = Inr \<lparr>merchant = js ''-'', currency = js ''SGD'', amount = Num 0, matched = []\<rparr>"
    by (simp add: run_defs)
next
  fix input
  assume h: "(\<forall>s\<in>set (take 6 (lines input)). \<not> merchant_candidate s)
        \<and> (\<forall>l\<in>set (lines input). \<forall>R\<in>set candidates. match R l = None)"
  have "take (min 6 (length (lines input))) (lines input) = take 6 (lines input)"
    by (simp add: min_def)
  with h have m: "find_merchant (lines input) = js ''-''"
    by (simp add: find_merchant_def merchant_loop_none)
  from h have "\<forall>l\<in>set (lines input). match_candidates candidates l = None"
    by (simp add: match_candidates_None_iff)
  then have "scan (lines input) = Inr (None, None, [])" by (rule scan_none)
  with m show "parseReceipt input
          = Inr \<lparr>merchant = js ''-'', currency = js ''SGD'', amount = Num 0, matched = []\<rparr>"
    by (simp add: parseReceipt_def)
next
  fix input
  show "\<exists>r. parseReceipt input = Inr r" by (rule parseReceipt_total)
qed

theorem defaults_without_signal_witness:
  "lines (js ''#### 12/34\<newline>~~'') = [js ''#### 12/34'', js ''~~'']
   \<and> \<not> merchant_candidate (js ''#### 12/34'') \<and> \<not> merchant_candidate (js ''~~'')
   \<and> match_candidates candidates (js ''#### 12/34'') = None
   \<and> match_candidates candidates (js ''~~'') = None
   \<and> parseReceipt (js ''#### 12/34\<newline>~~'')
       = Inr \<lparr>merchant = js ''-'', currency = js ''SGD'', amount = Num 0, matched = []\<rparr>"
proof -
  let ?T = "js ''#### 12/34\<newline>~~''"
  have l: "lines ?T = [js ''#### 12/34'', js ''~~'']"
    by (simp add: lines_def trim_def js_def is_space_def)
  have c1: "\<not> merchant_candidate (js ''#### 12/34'')"
    by (simp add: run_defs re_defs char_defs)
  have c2: "\<not> merchant_candidate (js ''~~'')"
    by (simp add: run_defs re_defs char_defs)
  have m1: "match_candidates candidates (js ''#### 12/34'') = None"
    by (simp add: re_defs char_defs js_def)
  have m2: "match_candidates candidates (js ''~~'') = None"
    by (simp add: re_defs char_defs js_def)
  have h1: "\<forall>s\<in>set (take 6 (lines ?T)). \<not> merchant_candidate s"
    unfolding l using c1 c2 by simp
  have h2: "\<forall>l\<in>set (lines ?T). \<forall>R\<in>set candidates. match R l = None"
    unfolding l using m1 m2 by (simp add: match_candidates_None_iff)
  from defaults_without_signal h1 h2
  have "parseReceipt ?T
       = Inr \<lparr>merchant = js ''-'', currency = js ''SGD'', amount = Num 0, matched = []\<rparr>"
    by blast
  with l c1 c2 m1 m2 show ?thesis by blast
qed

text \<open>
  C7. For every text the extractor returns a record (it does not throw and every loop
  is bounded by the input): the amount is a number that is not negative, the currency has
  three characters, and the merchant has between 1 and 60 characters.
\<close>

theorem parseReceipt_record_bounds:
  "\<exists>r q. parseReceipt text = Inr r \<and> amount r = Num q \<and> 0 \<le> q
     \<and> length (currency r) = 3
     \<and> 1 \<le> length (merchant r) \<and> length (merchant r) \<le> 60"
proof -
  from scan_result[of "lines text"] obtain a c l where
    s: "scan (lines text) = Inr (a, c, l)" and
    a: "a = None \<or> (\<exists>q. 0 \<le> q \<and> a = Some (Num q))" and
    c: "c = None \<or> c = Some (js ''CNY'') \<or> c = Some (js ''SGD'')"
    by blast
  define r where "r = \<lparr>merchant = find_merchant (lines text),
       currency = (case c of None \<Rightarrow> js ''SGD'' | Some x \<Rightarrow> x),
       amount = (case a of None \<Rightarrow> Num 0 | Some n \<Rightarrow> n),
       matched = l\<rparr>"
  have p: "parseReceipt text = Inr r"
    using s c unfolding r_def by (auto simp: parseReceipt_def Let_def js_def)
  from a obtain q where "amount r = Num q" "0 \<le> q" unfolding r_def by auto
  moreover from c have "length (currency r) = 3" unfolding r_def by (auto simp: js_def)
  moreover have "1 \<le> length (merchant r) \<and> length (merchant r) \<le> 60"
    unfolding r_def using find_merchant_length by simp
  ultimately show ?thesis using p by blast
qed

text \<open>
  C8. For every text, each character of the merchant is a word character, white
  space, a hyphen (45), an ampersand (38), a period (46) or a comma (44).
\<close>

theorem merchant_charset:
  "\<exists>r. parseReceipt text = Inr r \<and>
     (\<forall>c\<in>set (merchant r). is_word c \<or> is_space c \<or> c = 45 \<or> c = 38 \<or> c = 46 \<or> c = 44)"
proof -
  from scan_result[of "lines text"] obtain r where
    "parseReceipt text = Inr r" "merchant r = find_merchant (lines text)"
    by (auto simp: parseReceipt_def Let_def)
  moreover have "\<forall>c\<in>set (find_merchant (lines text)).
      is_word c \<or> is_space c \<or> c = 45 \<or> c = 38 \<or> c = 46 \<or> c = 44"
    using find_merchant_chars[of _ "lines text"] by (auto simp: merchant_char_def)
  ultimately show ?thesis by auto
qed

theorem merchant_charset_witness:
  "parseReceipt (js ''Joes (Diner) #1'')
     = Inr \<lparr>merchant = js ''Joes Diner 1'', currency = js ''SGD'', amount = Num 0, matched = []\<rparr>
   \<and> list_all (\<lambda>c. is_word c \<or> is_space c \<or> c = 45 \<or> c = 38 \<or> c = 46 \<or> c = 44)
       (js ''Joes Diner 1'')"
proof -
  have p: "parseReceipt (js ''Joes (Diner) #1'')
     = Inr \<lparr>merchant = js ''Joes Diner 1'', currency = js ''SGD'', amount = Num 0, matched = []\<rparr>"
    by (simp add: run_defs re_defs char_defs)
  from merchant_charset[of "js ''Joes (Diner) #1''"] p
  have "\<forall>c\<in>set (js ''Joes Diner 1''). is_word c \<or> is_space c \<or> c = 45 \<or> c = 38 \<or> c = 46 \<or> c = 44"
    by auto
  then have "list_all (\<lambda>c. is_word c \<or> is_space c \<or> c = 45 \<or> c = 38 \<or> c = 46 \<or> c = 44)
       (js ''Joes Diner 1'')"
    by (simp only: list_all_iff)
  with p show ?thesis by blast
qed

text \<open>
  C9. The extractor is deterministic: two invocations on the same text return equal
  records. An invocation starts in the store that the invocations before it have left.
  Whatever the two stores are, the records are equal; so they are when the second
  invocation starts in the store the first one leaves; and the record is the one that
  \<open>parseReceipt\<close> gives, which has no store. This rests on the flags: every object the
  extractor uses with \<open>test\<close> or \<open>match\<close> is without \<open>g\<close> and \<open>y\<close>, so that no
  \<open>lastIndex\<close> is read.
\<close>

theorem parseReceipt_st_deterministic:
  "fst (parseReceipt_st text st) = fst (parseReceipt_st text st')
   \<and> fst (parseReceipt_st text (snd (parseReceipt_st text st))) = fst (parseReceipt_st text st)
   \<and> fst (parseReceipt_st text st) = parseReceipt text"
  by (simp add: parseReceipt_st_plain)

theorem parseReceipt_st_deterministic_witness:
  "fst (parseReceipt_st (js ''TOTAL: 1.00'') \<lparr>cell = (\<lambda>a. 0), fresh = 0\<rparr>)
     = fst (parseReceipt_st (js ''TOTAL: 1.00'') \<lparr>cell = (\<lambda>a. 7), fresh = 3\<rparr>)
   \<and> fst (parseReceipt_st (js ''TOTAL: 1.00'') \<lparr>cell = (\<lambda>a. 7), fresh = 3\<rparr>)
     = Inr \<lparr>merchant = js ''-'', currency = js ''SGD'', amount = Num 1,
         matched = js ''TOTAL: 1.00''\<rparr>"
proof -
  have p: "parseReceipt (js ''TOTAL: 1.00'')
     = Inr \<lparr>merchant = js ''-'', currency = js ''SGD'', amount = Num 1,
         matched = js ''TOTAL: 1.00''\<rparr>"
    by (simp add: run_defs re_defs char_defs)
  note d = parseReceipt_st_deterministic[of "js ''TOTAL: 1.00''"
      "\<lparr>cell = (\<lambda>a. 7), fresh = 3\<rparr>" "\<lparr>cell = (\<lambda>a. 0), fresh = 0\<rparr>"]
  from d have "fst (parseReceipt_st (js ''TOTAL: 1.00'') \<lparr>cell = (\<lambda>a. 0), fresh = 0\<rparr>)
     = fst (parseReceipt_st (js ''TOTAL: 1.00'') \<lparr>cell = (\<lambda>a. 7), fresh = 3\<rparr>)"
    by (rule conjunct1[THEN sym])
  moreover from d have "fst (parseReceipt_st (js ''TOTAL: 1.00'') \<lparr>cell = (\<lambda>a. 7), fresh = 3\<rparr>)
     = parseReceipt (js ''TOTAL: 1.00'')"
    by (rule conjunct2[THEN conjunct2])
  ultimately show ?thesis unfolding p by (rule conjI)
qed

text \<open>
  C10. The deny list is matched anywhere in a line and without regard to case: a line
  \<open>s\<close> that contains, at any place and also inside a longer word, a piece \<open>x\<close> equal
  to a deny term up to the case of letters is matched by \<open>ban\<close>, is no merchant
  candidate, and is passed over by the merchant loop. So are \<open>Midtown Cafe\<close>,
  \<open>Wholesale Mart\<close> and \<open>Hosteria\<close>, which have letters and at least 3 characters.
\<close>

theorem deny_list_substring:
  assumes "t \<in> set ban_terms" and "s = ps @ x @ ss" and "ci_equal x (js t)"
  shows "test ban s \<and> \<not> merchant_candidate s \<and> merchant_loop (s # rest) = merchant_loop rest"
proof -
  from assms(2,3) have "contains_ci s (js t)" unfolding contains_ci_infix by blast
  with assms(1) have "test ban s" unfolding test_ban by blast
  then show ?thesis by (simp add: merchant_candidate_def)
qed

theorem deny_list_substring_witness:
  "''mid'' \<in> set ban_terms
   \<and> js ''Midtown Cafe'' = [] @ js ''Mid'' @ js ''town Cafe''
   \<and> ci_equal (js ''Mid'') (js ''mid'')
   \<and> test has_letter (js ''Midtown Cafe'') \<and> 3 \<le> length (js ''Midtown Cafe'')
   \<and> \<not> merchant_candidate (js ''Midtown Cafe'')
   \<and> ''sale'' \<in> set ban_terms
   \<and> js ''Wholesale Mart'' = js ''Whole'' @ js ''sale'' @ js '' Mart''
   \<and> test has_letter (js ''Wholesale Mart'') \<and> 3 \<le> length (js ''Wholesale Mart'')
   \<and> \<not> merchant_candidate (js ''Wholesale Mart'')
   \<and> ''host'' \<in> set ban_terms
   \<and> js ''Hosteria'' = [] @ js ''Host'' @ js ''eria''
   \<and> ci_equal (js ''Host'') (js ''host'')
   \<and> test has_letter (js ''Hosteria'') \<and> 3 \<le> length (js ''Hosteria'')
   \<and> \<not> merchant_candidate (js ''Hosteria'')
   \<and> find_merchant [js ''Midtown Cafe'', js ''Wholesale Mart'', js ''Hosteria''] = js ''-''"
proof -
  have a1: "''mid'' \<in> set ban_terms" by (simp add: ban_terms_def)
  have a2: "js ''Midtown Cafe'' = [] @ js ''Mid'' @ js ''town Cafe''" by (simp add: js_def)
  have a3: "ci_equal (js ''Mid'') (js ''mid'')" by (simp add: ci_equal_def js_def char_defs)
  have a4: "test has_letter (js ''Midtown Cafe'') \<and> 3 \<le> length (js ''Midtown Cafe'')"
    by (simp add: test_def has_letter_def cset_match_def js_def)
  have b1: "''sale'' \<in> set ban_terms" by (simp add: ban_terms_def)
  have b2: "js ''Wholesale Mart'' = js ''Whole'' @ js ''sale'' @ js '' Mart''" by (simp add: js_def)
  have b3: "ci_equal (js ''sale'') (js ''sale'')" by (simp add: ci_equal_def)
  have b4: "test has_letter (js ''Wholesale Mart'') \<and> 3 \<le> length (js ''Wholesale Mart'')"
    by (simp add: test_def has_letter_def cset_match_def js_def)
  have c1: "''host'' \<in> set ban_terms" by (simp add: ban_terms_def)
  have c2: "js ''Hosteria'' = [] @ js ''Host'' @ js ''eria''" by (simp add: js_def)
  have c3: "ci_equal (js ''Host'') (js ''host'')" by (simp add: ci_equal_def js_def char_defs)
  have c4: "test has_letter (js ''Hosteria'') \<and> 3 \<le> length (js ''Hosteria'')"
    by (simp add: test_def has_letter_def cset_match_def js_def)
  note A = deny_list_substring[OF a1 a2 a3]
  note B = deny_list_substring[OF b1 b2 b3]
  note C = deny_list_substring[OF c1 c2 c3]
  have f: "find_merchant [js ''Midtown Cafe'', js ''Wholesale Mart'', js ''Hosteria''] = js ''-''"
    using A B C by (simp add: find_merchant_def)
  from a1 a2 a3 a4 b1 b2 b4 c1 c2 c3 c4 A B C f show ?thesis by blast
qed

end
